theory Spec2Isabelle
  imports Complex_Main
begin

section \<open>Data model\<close>

text \<open>
  The development embeds \<^verbatim>\<open>CustomPipette\<close> of
  \<^verbatim>\<open>wet_scripting/uninduced_day_5/complete_protocol.py\<close> (the day 6 file has the same
  code and other appended data) and the induction loop of its \<^verbatim>\<open>run\<close>.

  Python exceptions are values of \<open>error\<close>. \<^verbatim>\<open>OutOfTipsError\<close> is the spec's OutOfTips;
  \<^verbatim>\<open>ValueError\<close> is raised both for a bad tip count (the spec's InvalidRequest) and for
  a volume above the headroom (the spec's InsufficientCapacity).
\<close>

datatype error = OutOfTipsError | ValueError | IndexError | KeyError

text \<open>
  A \<^verbatim>\<open>Well\<close> of a tip rack, with the two attributes the source reads. A tip rack is what
  \<^verbatim>\<open>tip_rack.columns()\<close> returns: a list of columns, each a list of wells from row A
  down. Labware objects are shared by reference, so the racks live in a store indexed
  by a rack identity, and a pipette's \<^verbatim>\<open>tip_racks\<close> is a list of identities.
  Volumes are Python floats; the model computes with reals, so \<open>v * 1.1\<close> is exact here.
\<close>

record well =
  well_has_tip :: bool
  well_max_volume :: real

type_synonym labware = "well list list"

record well_ref =
  ref_rack :: nat
  ref_col :: nat
  ref_row :: nat

text \<open>Opaque location handles of the deck: a reservoir position or a well of a plate.\<close>

datatype location = Reservoir string | PlateWell nat char nat

text \<open>
  The calls that reach the instrument driver or the operator, in the order they are made.
\<close>

datatype event =
    Prompt "nat list"
  | ResetTipracks
  | PickUpTip well_ref
  | Aspirate real location
  | Dispense real location
  | BlowOut location
  | TouchTip location
  | DropTip

record pipette =
  channels :: int
  max_volume :: real
  tip_racks :: "nat list"
  has_tip :: bool
  current_volume :: real

record env =
  deck :: "nat \<Rightarrow> labware"
  log :: "event list"

section \<open>Python list indexing and slicing\<close>

text \<open>
  \<^verbatim>\<open>xs[i]\<close> counts a negative index from the end and raises IndexError out of range;
  \<open>py_index\<close> returns the position read. \<^verbatim>\<open>xs[a:b]\<close> clamps both bounds and never raises.
\<close>

definition py_index :: "'a list \<Rightarrow> int \<Rightarrow> error + nat" where
  "py_index xs i =
     (let j = (if i < 0 then i + int (length xs) else i)
      in if 0 \<le> j \<and> j < int (length xs) then Inr (nat j) else Inl IndexError)"

definition py_clamp :: "nat \<Rightarrow> int \<Rightarrow> nat" where
  "py_clamp len i = (if i < 0 then nat (max 0 (i + int len)) else min len (nat i))"

definition py_slice :: "'a list \<Rightarrow> int \<Rightarrow> int \<Rightarrow> 'a list" where
  "py_slice xs a b =
     (let lo = py_clamp (length xs) a; hi = py_clamp (length xs) b
      in take (hi - lo) (drop lo xs))"

section \<open>The tip search: \<^verbatim>\<open>CustomPipette.next_tip\<close>\<close>

text \<open>
  The innermost loop, \<^verbatim>\<open>for i2, _ in enumerate(column[::-1])\<close>, over the values of
  \<^verbatim>\<open>i2\<close> still to visit. The start row is \<^verbatim>\<open>7 - i2\<close> whatever the length of the
  column; a start with \<^verbatim>\<open>well_index + number_of_tips > 8\<close> is skipped; the first start
  whose slice of the truth table is all true is taken, and \<^verbatim>\<open>column[well_index]\<close> is
  read there. \<open>Inr None\<close> is the loop ending with \<^verbatim>\<open>target_well\<close> still None.
\<close>

fun scan_rows :: "well list \<Rightarrow> int \<Rightarrow> nat list \<Rightarrow> error + nat option" where
  "scan_rows column number_of_tips [] = Inr None"
| "scan_rows column number_of_tips (i2 # rest) =
     (let well_index = 7 - int i2 in
      if well_index + number_of_tips > 8 then scan_rows column number_of_tips rest
      else if list_all (\<lambda>b. b)
                (py_slice (map well_has_tip column) well_index (well_index + number_of_tips))
      then (case py_index column well_index of
              Inl e \<Rightarrow> Inl e
            | Inr r \<Rightarrow> Inr (Some r))
      else scan_rows column number_of_tips rest)"

text \<open>The loop over the columns of one rack, \<open>i1\<close> counting them.\<close>

fun scan_columns :: "well list list \<Rightarrow> int \<Rightarrow> nat \<Rightarrow> error + (nat \<times> nat) option" where
  "scan_columns [] number_of_tips i1 = Inr None"
| "scan_columns (column # rest) number_of_tips i1 =
     (case scan_rows column number_of_tips [0..<length column] of
        Inl e \<Rightarrow> Inl e
      | Inr (Some r) \<Rightarrow> Inr (Some (i1, r))
      | Inr None \<Rightarrow> scan_columns rest number_of_tips (Suc i1))"

text \<open>
  The loop over the racks; its \<^verbatim>\<open>else\<close> branch raises when no rack broke out of it.
\<close>

fun scan_racks :: "(nat \<Rightarrow> labware) \<Rightarrow> nat list \<Rightarrow> int \<Rightarrow> error + well_ref" where
  "scan_racks d [] number_of_tips = Inl OutOfTipsError"
| "scan_racks d (tip_rack # rest) number_of_tips =
     (case scan_columns (d tip_rack) number_of_tips 0 of
        Inl e \<Rightarrow> Inl e
      | Inr (Some (c, r)) \<Rightarrow> Inr \<lparr>ref_rack = tip_rack, ref_col = c, ref_row = r\<rparr>
      | Inr None \<Rightarrow> scan_racks d rest number_of_tips)"

definition next_tip :: "pipette \<Rightarrow> env \<Rightarrow> int \<Rightarrow> error + well_ref" where
  "next_tip p e number_of_tips = scan_racks (deck e) (tip_racks p) number_of_tips"

text \<open>
  The search as the specification words it, for racks of 8-row columns: racks in the
  configured order, columns in their natural order, start rows from 7 down to 0, and the
  first start whose run of \<open>n\<close> slots fits in the column and is all available.
\<close>

definition run_available :: "well list \<Rightarrow> nat \<Rightarrow> nat \<Rightarrow> bool" where
  "run_available column r n = list_all (\<lambda>i. well_has_tip (column ! (r + i))) [0..<n]"

definition spec_column_search :: "well list \<Rightarrow> nat \<Rightarrow> nat option" where
  "spec_column_search column n =
     find (\<lambda>r. r + n \<le> 8 \<and> run_available column r n) (rev [0..<8])"

fun spec_rack_search :: "well list list \<Rightarrow> nat \<Rightarrow> nat \<Rightarrow> (nat \<times> nat) option" where
  "spec_rack_search [] n c = None"
| "spec_rack_search (column # rest) n c =
     (case spec_column_search column n of
        Some r \<Rightarrow> Some (c, r)
      | None \<Rightarrow> spec_rack_search rest n (Suc c))"

fun spec_next_tip :: "(nat \<Rightarrow> labware) \<Rightarrow> nat list \<Rightarrow> nat \<Rightarrow> error + well_ref" where
  "spec_next_tip d [] n = Inl OutOfTipsError"
| "spec_next_tip d (k # rest) n =
     (case spec_rack_search (d k) n 0 of
        Some (c, r) \<Rightarrow> Inr \<lparr>ref_rack = k, ref_col = c, ref_row = r\<rparr>
      | None \<Rightarrow> spec_next_tip d rest n)"

text \<open>Every column of every rack of the pipette has 8 rows (a 96-tip rack).\<close>

definition eight_rows :: "pipette \<Rightarrow> env \<Rightarrow> bool" where
  "eight_rows p e =
     list_all (\<lambda>k. list_all (\<lambda>column. length column = 8) (deck e k)) (tip_racks p)"

section \<open>The instrument driver\<close>

text \<open>
  Modelled from the spec: the driver collaborator (the Opentrons \<^verbatim>\<open>InstrumentContext\<close> that
  \<^verbatim>\<open>CustomPipette\<close> extends) and the tip tracker behind \<^verbatim>\<open>Well.has_tip\<close> are library
  code outside the repository. Each primitive is modelled at its interface: its effect on
  the attributes the source reads (\<^verbatim>\<open>has_tip\<close>, \<^verbatim>\<open>current_volume\<close>, \<^verbatim>\<open>Well.has_tip\<close>) and one
  log entry per call. Failures inside the driver are not modelled.

  \<^verbatim>\<open>pick_up_tip(exact_slot)\<close> claims slots: the source hands it the start well only, never
  the count, so the slots that stop reporting a tip are those under the head, one per
  channel from the start well down the column, as far as the column goes.
\<close>

definition mark_used :: "well list \<Rightarrow> nat \<Rightarrow> nat \<Rightarrow> well list" where
  "mark_used column r k =
     map (\<lambda>(i, w). if r \<le> i \<and> i < r + k then w\<lparr>well_has_tip := False\<rparr> else w)
       (enumerate 0 column)"

definition use_tips :: "labware \<Rightarrow> well_ref \<Rightarrow> nat \<Rightarrow> labware" where
  "use_tips rack w k =
     (if ref_col w < length rack
      then rack[ref_col w := mark_used (rack ! ref_col w) (ref_row w) k]
      else rack)"

definition base_pick_up_tip :: "well_ref \<Rightarrow> pipette \<Rightarrow> env \<Rightarrow> pipette \<times> env" where
  "base_pick_up_tip w p e =
     (p\<lparr>has_tip := True\<rparr>,
      e\<lparr>deck := (deck e)(ref_rack w := use_tips (deck e (ref_rack w)) w (nat (channels p))),
        log := log e @ [PickUpTip w]\<rparr>)"

text \<open>
  Modelled from the spec: \<^verbatim>\<open>replace_rack\<close> for every rack of the pipette (the library's
  \<^verbatim>\<open>reset_tipracks\<close>) resets every slot of those racks to available.
\<close>

definition reset_tipracks :: "pipette \<Rightarrow> env \<Rightarrow> env" where
  "reset_tipracks p e =
     e\<lparr>deck := (\<lambda>k. if k \<in> set (tip_racks p)
                     then map (map (\<lambda>w. w\<lparr>well_has_tip := True\<rparr>)) (deck e k)
                     else deck e k),
       log := log e @ [ResetTipracks]\<rparr>"

text \<open>The blocking operator prompt, \<^verbatim>\<open>input(...)\<close>, naming the racks to replace.\<close>

definition prompt :: "pipette \<Rightarrow> env \<Rightarrow> env" where
  "prompt p e = e\<lparr>log := log e @ [Prompt (tip_racks p)]\<rparr>"

text \<open>
  Modelled from the spec: the driver's liquid primitives. Aspirating adds to the held
  volume and dispensing takes from it; a blow-out empties the tip; a touch-tip moves no
  liquid; dropping the tip leaves the pipette with no tip and no liquid.
\<close>

definition aspirate :: "real \<Rightarrow> location \<Rightarrow> pipette \<Rightarrow> env \<Rightarrow> pipette \<times> env" where
  "aspirate v loc p e =
     (p\<lparr>current_volume := current_volume p + v\<rparr>, e\<lparr>log := log e @ [Aspirate v loc]\<rparr>)"

definition dispense :: "real \<Rightarrow> location \<Rightarrow> pipette \<Rightarrow> env \<Rightarrow> pipette \<times> env" where
  "dispense v loc p e =
     (p\<lparr>current_volume := current_volume p - v\<rparr>, e\<lparr>log := log e @ [Dispense v loc]\<rparr>)"

definition blow_out_at :: "location \<Rightarrow> pipette \<Rightarrow> env \<Rightarrow> pipette \<times> env" where
  "blow_out_at loc p e = (p\<lparr>current_volume := 0\<rparr>, e\<lparr>log := log e @ [BlowOut loc]\<rparr>)"

definition touch_tip_at :: "location \<Rightarrow> pipette \<Rightarrow> env \<Rightarrow> pipette \<times> env" where
  "touch_tip_at loc p e = (p, e\<lparr>log := log e @ [TouchTip loc]\<rparr>)"

definition drop_tip :: "pipette \<Rightarrow> env \<Rightarrow> pipette \<times> env" where
  "drop_tip p e = (p\<lparr>has_tip := False, current_volume := 0\<rparr>, e\<lparr>log := log e @ [DropTip]\<rparr>)"

section \<open>\<^verbatim>\<open>CustomPipette.pick_up_tip\<close>\<close>

text \<open>
  The \<^verbatim>\<open>number\<close> argument is any Python value: \<open>IntArg n\<close> when it is an instance of
  \<^verbatim>\<open>int\<close>, \<open>NotInt\<close> otherwise (None, a float, a string). The \<^verbatim>\<open>location\<close> keyword is
  \<open>Some w\<close> when it is given and truthy, \<open>None\<close> when it is absent or None.

  With a location the call goes to the driver at once. Otherwise the count is checked,
  the search runs, and an \<^verbatim>\<open>OutOfTipsError\<close> from it (no other exception) is caught: the
  operator is prompted, the racks are reset, and, \<^verbatim>\<open>next_tip\<close> being still None, the
  search runs a second time outside the \<^verbatim>\<open>try\<close>. A well is always truthy, so a first
  search that returned is never repeated.
\<close>

datatype number_arg = IntArg int | NotInt

definition pick_up_tip ::
  "number_arg \<Rightarrow> well_ref option \<Rightarrow> pipette \<Rightarrow> env \<Rightarrow> (error + unit) \<times> pipette \<times> env" where
  "pick_up_tip number location p e =
     (case location of
        Some loc \<Rightarrow> (case base_pick_up_tip loc p e of (p', e') \<Rightarrow> (Inr (), p', e'))
      | None \<Rightarrow>
         (case number of
            NotInt \<Rightarrow> (Inl ValueError, p, e)
          | IntArg n \<Rightarrow>
             if \<not> (0 < n \<and> n \<le> channels p) then (Inl ValueError, p, e)
             else
               (case next_tip p e n of
                  Inr w \<Rightarrow> (case base_pick_up_tip w p e of (p', e') \<Rightarrow> (Inr (), p', e'))
                | Inl OutOfTipsError \<Rightarrow>
                   (let e1 = reset_tipracks p (prompt p e) in
                    case next_tip p e1 n of
                      Inl err \<Rightarrow> (Inl err, p, e1)
                    | Inr w \<Rightarrow>
                       (case base_pick_up_tip w p e1 of (p', e') \<Rightarrow> (Inr (), p', e')))
                | Inl err \<Rightarrow> (Inl err, p, e))))"

section \<open>\<^verbatim>\<open>get_available_volume\<close>, \<^verbatim>\<open>get_current_volume\<close> and \<^verbatim>\<open>transfer\<close>\<close>

text \<open>The well object a reference denotes, for reading \<^verbatim>\<open>next_tip.max_volume\<close>.\<close>

definition well_at :: "env \<Rightarrow> well_ref \<Rightarrow> well" where
  "well_at e w = deck e (ref_rack w) ! ref_col w ! ref_row w"

text \<open>
  Both are queries: they read the pipette and the racks and change neither, so they
  return no state.
\<close>

definition get_available_volume :: "pipette \<Rightarrow> env \<Rightarrow> error + real" where
  "get_available_volume p e =
     (if has_tip p then Inr (max_volume p - current_volume p)
      else (case next_tip p e 1 of
              Inl err \<Rightarrow> Inl err
            | Inr w \<Rightarrow> Inr (min (well_max_volume (well_at e w)) (max_volume p))))"

definition get_current_volume :: "pipette \<Rightarrow> real" where
  "get_current_volume p = current_volume p"

text \<open>
  \<^verbatim>\<open>reverse and volume*1.1 <= self.get_available_volume()\<close> asks for the headroom only
  when \<^verbatim>\<open>reverse\<close> is set; the comparison that follows always asks for it.
\<close>

definition guarded_aspirate_volume :: "real \<Rightarrow> bool \<Rightarrow> pipette \<Rightarrow> env \<Rightarrow> error + real" where
  "guarded_aspirate_volume volume reverse p e =
     (if reverse
      then (case get_available_volume p e of
              Inl err \<Rightarrow> Inl err
            | Inr h \<Rightarrow> Inr (if volume * 1.1 \<le> h then volume * 1.1 else volume))
      else Inr volume)"

text \<open>
  The defensive clear at the head of \<^verbatim>\<open>transfer\<close>: a nonzero held volume is dispensed
  into the source.
\<close>

definition clear_residual :: "location \<Rightarrow> pipette \<Rightarrow> env \<Rightarrow> pipette \<times> env" where
  "clear_residual source p e =
     (if get_current_volume p \<noteq> 0 then dispense (get_current_volume p) source p e else (p, e))"

definition transfer ::
  "real \<Rightarrow> location \<Rightarrow> location \<Rightarrow> bool \<Rightarrow> bool \<Rightarrow> bool \<Rightarrow> pipette \<Rightarrow> env
     \<Rightarrow> (error + real) \<times> pipette \<times> env" where
  "transfer volume source destination touch_tip blow_out reverse p e =
     (case clear_residual source p e of
        (p1, e1) \<Rightarrow>
          (case guarded_aspirate_volume volume reverse p1 e1 of
             Inl err \<Rightarrow> (Inl err, p1, e1)
           | Inr aspiration_volume \<Rightarrow>
              (case get_available_volume p1 e1 of
                 Inl err \<Rightarrow> (Inl err, p1, e1)
               | Inr h \<Rightarrow>
                  if aspiration_volume > h then (Inl ValueError, p1, e1)
                  else
                    (case aspirate aspiration_volume source p1 e1 of
                       (p2, e2) \<Rightarrow>
                         (case dispense volume destination p2 e2 of
                            (p3, e3) \<Rightarrow>
                              (case (if blow_out then blow_out_at destination p3 e3
                                     else (p3, e3)) of
                                 (p4, e4) \<Rightarrow>
                                   (case (if touch_tip then touch_tip_at destination p4 e4
                                          else (p4, e4)) of
                                      (p5, e5) \<Rightarrow>
                                        (Inr (get_current_volume p5), p5, e5))))))))"

section \<open>Induction scheduling: the loop of \<^verbatim>\<open>run\<close>\<close>

text \<open>
  A well name such as \<^verbatim>\<open>'B10'\<close> is the pair of its row letter, \<^verbatim>\<open>location[0]\<close>, and its
  column number, \<^verbatim>\<open>int(location[1:])\<close>. \<^verbatim>\<open>letters.index\<close> raises ValueError for a
  character that is not a row letter.
\<close>

type_synonym well_name = "char \<times> nat"

definition letters :: string where
  "letters = ''ABCDEFGH''"

fun str_index :: "string \<Rightarrow> char \<Rightarrow> error + nat" where
  "str_index [] c = Inl ValueError"
| "str_index (x # xs) c =
     (if x = c then Inr 0
      else (case str_index xs c of Inl e \<Rightarrow> Inl e | Inr i \<Rightarrow> Inr (Suc i)))"

text \<open>
  \<^verbatim>\<open>column_occupancy = {n: [False]*12 for n in range(1, 13)}\<close>: the keys are the columns
  1 to 12, and every vector has 12 entries, of which the 8 row letters can reach the
  first 8.
\<close>

definition empty_occupancy :: "nat \<rightharpoonup> bool list" where
  "empty_occupancy = (\<lambda>n. if 1 \<le> n \<and> n < 13 then Some (replicate 12 False) else None)"

text \<open>
  The loop that marks the target wells. The subscript on the dictionary is evaluated
  first (KeyError for a column outside 1 to 12), then \<^verbatim>\<open>letters.index\<close>.
\<close>

fun mark_locations :: "(nat \<rightharpoonup> bool list) \<Rightarrow> well_name list \<Rightarrow> error + (nat \<rightharpoonup> bool list)" where
  "mark_locations occ [] = Inr occ"
| "mark_locations occ ((letter, col) # rest) =
     (case occ col of
        None \<Rightarrow> Inl KeyError
      | Some vector \<Rightarrow>
         (case str_index letters letter of
            Inl e \<Rightarrow> Inl e
          | Inr i \<Rightarrow> mark_locations (occ(col \<mapsto> vector[i := True])) rest))"

text \<open>
  \<^verbatim>\<open>next(i for i, x in enumerate(vector) if x)\<close> is the index of the first true entry and
  raises StopIteration when there is none; \<^verbatim>\<open>sum(vector)\<close> counts the true entries. The
  bare \<^verbatim>\<open>except\<close> turns the exception into the plan \<open>(0, 0)\<close>.
\<close>

fun first_true :: "bool list \<Rightarrow> nat option" where
  "first_true [] = None"
| "first_true (x # xs) = (if x then Some 0 else map_option Suc (first_true xs))"

definition sum_bools :: "bool list \<Rightarrow> nat" where
  "sum_bools vector = sum_list (map (\<lambda>x. if x then 1 else 0) vector)"

definition column_plan :: "bool list \<Rightarrow> nat \<times> nat" where
  "column_plan vector =
     (case first_true vector of
        None \<Rightarrow> (0, 0)
      | Some start_row \<Rightarrow> (start_row, sum_bools vector))"

text \<open>
  One round of the last loop, for a column and its plan \<open>(row, num_tips)\<close>: nothing when
  \<open>num_tips\<close> is 0; otherwise a pick-up of \<open>num_tips\<close> tips, one reverse transfer with
  touch-tip to the well of \<open>row\<close> in this column of plate 2, and the drop of the tips. An
  exception leaves the loop.
\<close>

definition induce_column ::
  "real \<Rightarrow> location \<Rightarrow> nat \<Rightarrow> nat \<times> nat \<Rightarrow> pipette \<Rightarrow> env \<Rightarrow> (error + unit) \<times> pipette \<times> env" where
  "induce_column iptg_volume iptg_source column plan p e =
     (case plan of
        (row, num_tips) \<Rightarrow>
          if num_tips = 0 then (Inr (), p, e)
          else
            (case pick_up_tip (IntArg (int num_tips)) None p e of
               (Inl err, p1, e1) \<Rightarrow> (Inl err, p1, e1)
             | (Inr _, p1, e1) \<Rightarrow>
                (case py_index letters (int row) of
                   Inl err \<Rightarrow> (Inl err, p1, e1)
                 | Inr i \<Rightarrow>
                    (case transfer iptg_volume iptg_source (PlateWell 2 (letters ! i) column)
                            True False True p1 e1 of
                       (Inl err, p2, e2) \<Rightarrow> (Inl err, p2, e2)
                     | (Inr _, p2, e2) \<Rightarrow>
                        (case drop_tip p2 e2 of (p3, e3) \<Rightarrow> (Inr (), p3, e3))))))"

text \<open>The last loop over the columns of the dictionary, in key order.\<close>

fun induce_columns ::
  "real \<Rightarrow> location \<Rightarrow> (nat \<times> nat \<times> nat) list \<Rightarrow> pipette \<Rightarrow> env
     \<Rightarrow> (error + unit) \<times> pipette \<times> env" where
  "induce_columns iptg_volume iptg_source [] p e = (Inr (), p, e)"
| "induce_columns iptg_volume iptg_source ((column, plan) # rest) p e =
     (case induce_column iptg_volume iptg_source column plan p e of
        (Inl err, p1, e1) \<Rightarrow> (Inl err, p1, e1)
      | (Inr _, p1, e1) \<Rightarrow> induce_columns iptg_volume iptg_source rest p1 e1)"

text \<open>
  The second loop replaces every vector of the dictionary by its plan, in key order.
\<close>

fun plan_columns :: "(nat \<rightharpoonup> bool list) \<Rightarrow> nat list \<Rightarrow> error + (nat \<times> nat \<times> nat) list" where
  "plan_columns occ [] = Inr []"
| "plan_columns occ (column # rest) =
     (case occ column of
        None \<Rightarrow> Inl KeyError
      | Some vector \<Rightarrow>
         (case plan_columns occ rest of
            Inl e \<Rightarrow> Inl e
          | Inr plans \<Rightarrow> Inr ((column, column_plan vector) # plans)))"

text \<open>
  One pass of the induction (the body of the outer loop, for one set of target wells and
  its source liquid): mark, plan every column, then induce them in turn.
\<close>

definition induction_pass ::
  "real \<Rightarrow> location \<Rightarrow> well_name list \<Rightarrow> pipette \<Rightarrow> env \<Rightarrow> (error + unit) \<times> pipette \<times> env" where
  "induction_pass iptg_volume iptg_source locations p e =
     (case mark_locations empty_occupancy locations of
        Inl err \<Rightarrow> (Inl err, p, e)
      | Inr occ \<Rightarrow>
         (case plan_columns occ [1..<13] of
            Inl err \<Rightarrow> (Inl err, p, e)
          | Inr plans \<Rightarrow> induce_columns iptg_volume iptg_source plans p e))"

section \<open>Tip sets of several pipettes\<close>

text \<open>
  A slot reports available when it exists and its well has a tip. The TipSet of a
  pick-up of \<open>n\<close> tips at a start well is the run of \<open>n\<close> slots from it down the column.
\<close>

definition slot_available :: "env \<Rightarrow> well_ref \<Rightarrow> bool" where
  "slot_available e s =
     (ref_col s < length (deck e (ref_rack s)) \<and>
      ref_row s < length (deck e (ref_rack s) ! ref_col s) \<and>
      well_has_tip (well_at e s))"

definition tip_set :: "well_ref \<Rightarrow> nat \<Rightarrow> well_ref list" where
  "tip_set w n = map (\<lambda>i. w\<lparr>ref_row := ref_row w + i\<rparr>) [0..<n]"

text \<open>The start well of the last pick-up in a log.\<close>

fun last_picked :: "event list \<Rightarrow> well_ref option" where
  "last_picked [] = None"
| "last_picked (ev # evs) =
     (case last_picked evs of
        Some w \<Rightarrow> Some w
      | None \<Rightarrow> (case ev of PickUpTip w \<Rightarrow> Some w | _ \<Rightarrow> None))"

text \<open>
  The pipettes of a protocol share the deck and the log. \<open>tipsets\<close> records, for each
  pipette, the TipSet it holds (empty when it holds none). An acquire is valid for a
  pipette that holds no TipSet and a release for one that holds one; \<open>None\<close> is an
  operation that is not valid in this state, or one that raised.
\<close>

record fleet =
  pipettes :: "pipette list"
  fleet_env :: env
  tipsets :: "well_ref list list"

datatype op = Acquire nat int | Release nat

fun exec_op :: "op \<Rightarrow> fleet \<Rightarrow> fleet option" where
  "exec_op (Acquire i n) f =
     (if i < length (pipettes f) \<and> i < length (tipsets f) \<and> tipsets f ! i = []
      then (case pick_up_tip (IntArg n) None (pipettes f ! i) (fleet_env f) of
              (Inl err, p', e') \<Rightarrow> None
            | (Inr _, p', e') \<Rightarrow>
               (case last_picked (log e') of
                  None \<Rightarrow> None
                | Some w \<Rightarrow>
                   Some (f\<lparr>pipettes := (pipettes f)[i := p'], fleet_env := e',
                           tipsets := (tipsets f)[i := tip_set w (nat n)]\<rparr>)))
      else None)"
| "exec_op (Release i) f =
     (if i < length (pipettes f) \<and> i < length (tipsets f) \<and> tipsets f ! i \<noteq> []
      then (case drop_tip (pipettes f ! i) (fleet_env f) of
              (p', e') \<Rightarrow>
                Some (f\<lparr>pipettes := (pipettes f)[i := p'], fleet_env := e',
                        tipsets := (tipsets f)[i := []]\<rparr>))
      else None)"

fun run_ops :: "op list \<Rightarrow> fleet \<Rightarrow> fleet option" where
  "run_ops [] f = Some f"
| "run_ops (x # xs) f = (case exec_op x f of None \<Rightarrow> None | Some f' \<Rightarrow> run_ops xs f')"

text \<open>
  The invariant of the claim: no slot occurs twice among the live TipSets, and every slot
  of a live TipSet reports unavailable.
\<close>

definition fleet_ok :: "fleet \<Rightarrow> bool" where
  "fleet_ok f =
     (distinct (concat (tipsets f)) \<and>
      list_all (\<lambda>s. \<not> slot_available (fleet_env f) s) (concat (tipsets f)))"

text \<open>
  An acquire is refill-safe when, if its first search raises \<^verbatim>\<open>OutOfTipsError\<close> (so that
  the racks of its pipette are about to be reset), no live TipSet has a slot in one of
  those racks. A sequence is refill-safe when each of its acquires is, in the state it
  runs in.
\<close>

definition refill_safe :: "fleet \<Rightarrow> nat \<Rightarrow> int \<Rightarrow> bool" where
  "refill_safe f i n =
     (next_tip (pipettes f ! i) (fleet_env f) n \<noteq> Inl OutOfTipsError \<or>
      list_all (\<lambda>s. ref_rack s \<notin> set (tip_racks (pipettes f ! i))) (concat (tipsets f)))"

fun safe_ops :: "op list \<Rightarrow> fleet \<Rightarrow> bool" where
  "safe_ops [] f = True"
| "safe_ops (x # xs) f =
     ((case x of Acquire i n \<Rightarrow> refill_safe f i n | Release i \<Rightarrow> True) \<and>
      (case exec_op x f of None \<Rightarrow> True | Some f' \<Rightarrow> safe_ops xs f'))"

text \<open>
  The racks as the search that serves a request sees them: reset after the prompt when
  the first search raises \<^verbatim>\<open>OutOfTipsError\<close>, as they are otherwise.
\<close>

definition search_env :: "pipette \<Rightarrow> env \<Rightarrow> int \<Rightarrow> env" where
  "search_env p e n =
     (if next_tip p e n = Inl OutOfTipsError then reset_tipracks p (prompt p e) else e)"

text \<open>Every rack of every pipette of the fleet is made of 8-row columns.\<close>

definition fleet_eight_rows :: "fleet \<Rightarrow> bool" where
  "fleet_eight_rows f = list_all (\<lambda>q. eight_rows q (fleet_env f)) (pipettes f)"

section \<open>Notions of the specification\<close>

text \<open>The number of operator prompts in a log.\<close>

fun is_prompt :: "event \<Rightarrow> bool" where
  "is_prompt (Prompt ks) = True"
| "is_prompt ev = False"

definition prompts :: "event list \<Rightarrow> nat" where
  "prompts evs = length (filter is_prompt evs)"

text \<open>A tip count is valid: a positive integer not above the channel count.\<close>

fun valid_count :: "pipette \<Rightarrow> number_arg \<Rightarrow> bool" where
  "valid_count p (IntArg n) = (0 < n \<and> n \<le> channels p)"
| "valid_count p NotInt = False"

text \<open>
  The aspiration volume the specification chooses for a requested volume and a headroom
  \<open>h\<close>: the request with its 10 percent margin when \<^verbatim>\<open>reverse\<close> is set and that fits,
  the request itself otherwise.
\<close>

definition chosen_volume :: "real \<Rightarrow> bool \<Rightarrow> real \<Rightarrow> real" where
  "chosen_volume volume reverse h =
     (if reverse \<and> volume * 1.1 \<le> h then volume * 1.1 else volume)"

text \<open>
  The scheduling of one pass as the specification words it. A row of a column of the
  destination plate is occupied when its well is a target. A round for a column is one
  request for \<open>tip_count\<close> tips (the count alone: the tip search chooses the slots), one
  reverse transfer with touch-tip to the well of \<open>start_row\<close> in that column, and the
  drop of the tips. The columns 1 to 12 are visited in order; a column with no occupied
  row is skipped; otherwise \<open>start_row\<close> is the first occupied row and \<open>tip_count\<close> the
  number of occupied rows; an error ends the pass.
\<close>

definition occupied :: "well_name list \<Rightarrow> nat \<Rightarrow> nat \<Rightarrow> bool" where
  "occupied locations column i = ((letters ! i, column) \<in> set locations)"

definition spec_round ::
  "real \<Rightarrow> location \<Rightarrow> nat \<Rightarrow> nat \<Rightarrow> nat \<Rightarrow> pipette \<Rightarrow> env \<Rightarrow> (error + unit) \<times> pipette \<times> env" where
  "spec_round iptg_volume iptg_source column start_row tip_count p e =
     (case pick_up_tip (IntArg (int tip_count)) None p e of
        (Inl err, s) \<Rightarrow> (Inl err, s)
      | (Inr u, p1, e1) \<Rightarrow>
         (case transfer iptg_volume iptg_source (PlateWell 2 (letters ! start_row) column)
                 True False True p1 e1 of
            (Inl err, s) \<Rightarrow> (Inl err, s)
          | (Inr r, p2, e2) \<Rightarrow> (Inr (), drop_tip p2 e2)))"

fun spec_schedule ::
  "real \<Rightarrow> location \<Rightarrow> well_name list \<Rightarrow> nat list \<Rightarrow> pipette \<Rightarrow> env
     \<Rightarrow> (error + unit) \<times> pipette \<times> env" where
  "spec_schedule iptg_volume iptg_source locations [] p e = (Inr (), p, e)"
| "spec_schedule iptg_volume iptg_source locations (column # rest) p e =
     (case find (occupied locations column) [0..<8] of
        None \<Rightarrow> spec_schedule iptg_volume iptg_source locations rest p e
      | Some start_row \<Rightarrow>
         (case spec_round iptg_volume iptg_source column start_row
                 (length (filter (occupied locations column) [0..<8])) p e of
            (Inl err, s) \<Rightarrow> (Inl err, s)
          | (Inr u, p1, e1) \<Rightarrow> spec_schedule iptg_volume iptg_source locations rest p1 e1))"

text \<open>No well of any rack of the pipette has a tip.\<close>

definition exhausted :: "pipette \<Rightarrow> env \<Rightarrow> bool" where
  "exhausted p e =
     list_all (\<lambda>k. list_all (list_all (\<lambda>w. \<not> well_has_tip w)) (deck e k)) (tip_racks p)"

text \<open>Every well of every rack of the pipette has a tip.\<close>

definition all_full :: "pipette \<Rightarrow> env \<Rightarrow> bool" where
  "all_full p e =
     list_all (\<lambda>k. list_all (list_all well_has_tip) (deck e k)) (tip_racks p)"

section \<open>Example configurations\<close>

text \<open>A rack of one column of 8 wells, given by which rows hold a tip.\<close>

definition one_column :: "bool list \<Rightarrow> labware" where
  "one_column tips = [map (\<lambda>b. \<lparr>well_has_tip = b, well_max_volume = 20\<rparr>) tips]"

definition full_column :: labware where
  "full_column = one_column (replicate 8 True)"

definition empty_column :: labware where
  "empty_column = one_column (replicate 8 False)"

text \<open>A full column of 200 uL filter tips.\<close>

definition filter_tip_column :: labware where
  "filter_tip_column = [replicate 8 \<lparr>well_has_tip = True, well_max_volume = 200\<rparr>]"

definition last_tip_column :: labware where
  "last_tip_column = one_column (replicate 7 False @ [True])"

text \<open>An 8-channel and a single-channel pipette, both on rack 0, neither holding a tip.\<close>

definition multi8 :: pipette where
  "multi8 = \<lparr>channels = 8, max_volume = 20, tip_racks = [0], has_tip = False, current_volume = 0\<rparr>"

definition single1 :: pipette where
  "single1 = \<lparr>channels = 1, max_volume = 300, tip_racks = [0], has_tip = False, current_volume = 0\<rparr>"

text \<open>The single-channel pipette holding an empty tip.\<close>

definition single1_with_tip :: pipette where
  "single1_with_tip = single1\<lparr>has_tip := True\<rparr>"

text \<open>
  Target wells: rows C, D and E of column 2, and the rows B and F of column 3, which
  are not next to each other.
\<close>

definition scenario_locations :: "well_name list" where
  "scenario_locations =
     [(CHR ''C'', 2), (CHR ''D'', 2), (CHR ''E'', 2), (CHR ''B'', 3), (CHR ''F'', 3)]"

definition env_of :: "labware \<Rightarrow> env" where
  "env_of rack = \<lparr>deck = (\<lambda>k. rack), log = []\<rparr>"

text \<open>
  Two single-channel pipettes configured with the same rack, whose last tip is in row H;
  and two on racks of their own, 0 and 1, with the same content.
\<close>

definition shared_fleet :: fleet where
  "shared_fleet =
     \<lparr>pipettes = [single1, single1], fleet_env = env_of last_tip_column, tipsets = [[], []]\<rparr>"

definition separate_fleet :: fleet where
  "separate_fleet =
     \<lparr>pipettes = [single1, single1\<lparr>tip_racks := [1]\<rparr>], fleet_env = env_of last_tip_column,
      tipsets = [[], []]\<rparr>"

section \<open>Properties of the tip search\<close>

lemma py_slice_in_range:
  "0 \<le> a \<Longrightarrow> a \<le> b \<Longrightarrow> b \<le> int (length xs) \<Longrightarrow>
   py_slice xs a b = take (nat (b - a)) (drop (nat a) xs)"
  by (simp add: py_slice_def py_clamp_def Let_def min_def nat_diff_distrib)

lemma py_index_in_range:
  "0 \<le> i \<Longrightarrow> i < int (length xs) \<Longrightarrow> py_index xs i = Inr (nat i)"
  by (simp add: py_index_def)

lemma take_drop_as_map:
  "r + n \<le> length ys \<Longrightarrow> take n (drop r ys) = map (\<lambda>i. ys ! (r + i)) [0..<n]"
  by (rule nth_equalityI) simp_all

lemma list_all_take_drop:
  "r + n \<le> length xs \<Longrightarrow>
   list_all (\<lambda>b. b) (take n (drop r (map f xs))) = list_all (\<lambda>i. f (xs ! (r + i))) [0..<n]"
  by (simp add: take_drop_as_map list_all_iff)

lemma rows_7_down_to_0: "map (\<lambda>i2. 7 - i2) [0..<8] = rev [0..<8::nat]"
  by code_simp

text \<open>
  On a column of 8 rows the inner loop visits the start rows \<open>7 - i2\<close> and stops at the
  first one whose run fits and is available; no index leaves the column.
\<close>

lemma scan_rows_spec:
  assumes "length column = 8" "1 \<le> n" "\<forall>i2 \<in> set is. i2 < 8"
  shows "scan_rows column n is =
           Inr (find (\<lambda>r. r + nat n \<le> 8 \<and> run_available column r (nat n))
                  (map (\<lambda>i2. 7 - i2) is))"
  using assms(3)
proof (induction "is")
  case Nil
  then show ?case by simp
next
  case (Cons i2 rest)
  then have i2: "i2 < 8" and rest: "\<forall>i2 \<in> set rest. i2 < 8"
    by simp_all
  note IH = Cons.IH [OF rest]
  define wi where "wi = 7 - int i2"
  have wi: "0 \<le> wi" "wi < 8" "nat wi = 7 - i2"
    using i2 by (simp_all add: wi_def)
  show ?case
  proof (cases "wi + n > 8")
    case True
    then have "\<not> (7 - i2) + nat n \<le> 8"
      using wi assms(2) by linarith
    with True IH show ?thesis
      by (simp add: wi_def)
  next
    case False
    then have fits: "(7 - i2) + nat n \<le> 8"
      using wi assms(2) by linarith
    have slice: "py_slice (map well_has_tip column) wi (wi + n)
                   = take (nat n) (drop (7 - i2) (map well_has_tip column))"
      using py_slice_in_range [of wi "wi + n" "map well_has_tip column"] wi False assms(1,2)
      by simp
    have run: "list_all (\<lambda>b. b) (py_slice (map well_has_tip column) wi (wi + n))
                 = run_available column (7 - i2) (nat n)"
      unfolding slice run_available_def
      using fits assms(1) by (simp add: list_all_take_drop)
    have idx: "py_index column wi = Inr (7 - i2)"
      using py_index_in_range [of wi column] wi assms(1) by simp
    show ?thesis
      using False fits run idx IH
      by (simp add: wi_def [symmetric])
  qed
qed

lemma scan_columns_spec:
  assumes "list_all (\<lambda>column. length column = 8) columns" "1 \<le> n"
  shows "scan_columns columns n c = Inr (spec_rack_search columns (nat n) c)"
  using assms(1)
proof (induction columns arbitrary: c)
  case Nil
  then show ?case by simp
next
  case (Cons column rest)
  then have len: "length column = 8" and rest: "list_all (\<lambda>column. length column = 8) rest"
    by simp_all
  have "scan_rows column n [0..<length column] = Inr (spec_column_search column (nat n))"
    using scan_rows_spec [OF len assms(2), of "[0..<8]"] len
    by (simp add: spec_column_search_def rows_7_down_to_0 del: upt_Suc)
  then show ?case
    using Cons.IH [OF rest] by (simp split: option.splits)
qed

lemma scan_racks_spec:
  assumes "list_all (\<lambda>k. list_all (\<lambda>column. length column = 8) (d k)) ks" "1 \<le> n"
  shows "scan_racks d ks n = spec_next_tip d ks (nat n)"
  using assms(1)
proof (induction ks)
  case Nil
  then show ?case by simp
next
  case (Cons k rest)
  then show ?case
    using scan_columns_spec [OF _ assms(2), of "d k" 0]
    by (simp split: option.splits)
qed

text \<open>
  C1. On racks of 8-row columns and for a tip count \<open>n\<close> from 1 to 8, \<^verbatim>\<open>next_tip\<close> is the
  search the specification describes: the racks in their configured order, the columns
  of a rack in their natural order, the start rows of a column from 7 down to 0, and the
  first start whose run of \<open>n\<close> slots fits within the 8 rows and is all available;
  \<^verbatim>\<open>OutOfTipsError\<close> when there is none. The scenario of the specification is the witness:
  on one full column of 8 rows a request for 3 tips returns row 5, the run of rows 5 to 7.
\<close>

theorem next_tip_search_order:
  assumes "eight_rows p e" "1 \<le> n" "n \<le> 8"
  shows "next_tip p e n = spec_next_tip (deck e) (tip_racks p) (nat n)"
  using scan_racks_spec [OF _ assms(2), of "deck e" "tip_racks p"] assms(1)
  by (simp add: next_tip_def eight_rows_def)

theorem next_tip_bottom_anchored_witness:
  "eight_rows multi8 (env_of full_column) \<and>
   next_tip multi8 (env_of full_column) 3 = Inr \<lparr>ref_rack = 0, ref_col = 0, ref_row = 5\<rparr> \<and>
   tip_set \<lparr>ref_rack = 0, ref_col = 0, ref_row = 5\<rparr> 3 =
     [\<lparr>ref_rack = 0, ref_col = 0, ref_row = 5\<rparr>, \<lparr>ref_rack = 0, ref_col = 0, ref_row = 6\<rparr>,
      \<lparr>ref_rack = 0, ref_col = 0, ref_row = 7\<rparr>]"
proof -
  have h: "eight_rows multi8 (env_of full_column)"
    by (simp add: eight_rows_def multi8_def env_of_def full_column_def one_column_def)
  have "spec_next_tip (deck (env_of full_column)) (tip_racks multi8) (nat 3)
          = Inr \<lparr>ref_rack = 0, ref_col = 0, ref_row = 5\<rparr>"
    by code_simp
  moreover have "tip_set \<lparr>ref_rack = 0, ref_col = 0, ref_row = 5\<rparr> 3 =
     [\<lparr>ref_rack = 0, ref_col = 0, ref_row = 5\<rparr>, \<lparr>ref_rack = 0, ref_col = 0, ref_row = 6\<rparr>,
      \<lparr>ref_rack = 0, ref_col = 0, ref_row = 7\<rparr>]"
    by code_simp
  ultimately show ?thesis
    using h next_tip_search_order [OF h, of 3] by simp
qed

section \<open>Properties of the pick-up\<close>

lemma scan_rows_error: "scan_rows column n is = Inl err \<Longrightarrow> err = IndexError"
  by (induction "is")
     (auto simp: Let_def py_index_def split: if_splits sum.splits)

lemma scan_columns_error: "scan_columns columns n c = Inl err \<Longrightarrow> err = IndexError"
  by (induction columns arbitrary: c)
     (auto split: sum.splits option.splits dest: scan_rows_error)

lemma scan_racks_error:
  "scan_racks d ks n = Inl err \<Longrightarrow> err = IndexError \<or> err = OutOfTipsError"
  by (induction ks)
     (auto split: sum.splits option.splits prod.splits dest: scan_columns_error)

lemma next_tip_error:
  "next_tip p e n = Inl err \<Longrightarrow> err = IndexError \<or> err = OutOfTipsError"
  unfolding next_tip_def by (rule scan_racks_error)

lemma pick_up_tip_checked:
  "0 < n \<Longrightarrow> n \<le> channels p \<Longrightarrow>
   pick_up_tip (IntArg n) None p e =
     (case next_tip p e n of
        Inr w \<Rightarrow> (Inr (), base_pick_up_tip w p e)
      | Inl err \<Rightarrow>
         (if err = OutOfTipsError
          then (case next_tip p (reset_tipracks p (prompt p e)) n of
                  Inl err' \<Rightarrow> (Inl err', p, reset_tipracks p (prompt p e))
                | Inr w \<Rightarrow> (Inr (), base_pick_up_tip w p (reset_tipracks p (prompt p e))))
          else (Inl err, p, e)))"
  by (simp add: pick_up_tip_def Let_def split: sum.splits error.splits prod.splits)

text \<open>
  C4. A call to \<^verbatim>\<open>pick_up_tip\<close> with no location raises \<^verbatim>\<open>ValueError\<close> (the InvalidRequest
  of the specification) exactly when the requested count is not a positive integer not
  above the channel count of the pipette. The error is raised at once: the pipette, the
  racks and the log are as before the call, so nothing was prompted and nothing retried.
  The witness has the counts 0 and 9 on an 8-channel pipette, which fail, and 8, which
  does not.
\<close>

theorem pick_up_tip_invalid_request:
  "(fst (pick_up_tip number None p e) = Inl ValueError) = (\<not> valid_count p number) \<and>
   (\<not> valid_count p number \<longrightarrow> pick_up_tip number None p e = (Inl ValueError, p, e))"
proof (cases number)
  case NotInt
  then show ?thesis by (simp add: pick_up_tip_def)
next
  case (IntArg n)
  show ?thesis
  proof (cases "0 < n \<and> n \<le> channels p")
    case False
    with IntArg show ?thesis by (auto simp: pick_up_tip_def)
  next
    case True
    then have "fst (pick_up_tip (IntArg n) None p e) \<noteq> Inl ValueError"
      using next_tip_error [of p e n] next_tip_error [of p "reset_tipracks p (prompt p e)" n]
      by (auto simp: pick_up_tip_checked split: sum.splits prod.splits)
    with True IntArg show ?thesis by simp
  qed
qed

theorem pick_up_tip_invalid_request_witness:
  "pick_up_tip (IntArg 0) None multi8 (env_of full_column) = (Inl ValueError, multi8, env_of full_column) \<and>
   pick_up_tip (IntArg 9) None multi8 (env_of full_column) = (Inl ValueError, multi8, env_of full_column) \<and>
   valid_count multi8 (IntArg 8) \<and>
   fst (pick_up_tip (IntArg 8) None multi8 (env_of full_column)) \<noteq> Inl ValueError"
  using pick_up_tip_invalid_request [of "IntArg 0" multi8 "env_of full_column"]
        pick_up_tip_invalid_request [of "IntArg 9" multi8 "env_of full_column"]
        pick_up_tip_invalid_request [of "IntArg 8" multi8 "env_of full_column"]
  by (simp add: multi8_def)

text \<open>
  C9. A call to \<^verbatim>\<open>pick_up_tip\<close> with a truthy location goes straight to the pick-up of
  the driver at that location, whatever the number argument and whatever the racks
  report: no count is checked, no search runs and nobody is prompted; the only entry
  the call adds to the log is that pick-up.
\<close>

theorem pick_up_tip_location_bypass:
  "pick_up_tip number (Some loc) p e = (Inr (), base_pick_up_tip loc p e) \<and>
   log (snd (snd (pick_up_tip number (Some loc) p e))) = log e @ [PickUpTip loc]"
  by (simp add: pick_up_tip_def base_pick_up_tip_def)

lemma reset_tipracks_all_full: "all_full p (reset_tipracks p e)"
  by (simp add: all_full_def reset_tipracks_def list_all_iff)

lemma prompts_append: "prompts (xs @ ys) = prompts xs + prompts ys"
  by (simp add: prompts_def)

lemma log_base_pick_up_tip: "log (snd (base_pick_up_tip w p e)) = log e @ [PickUpTip w]"
  by (simp add: base_pick_up_tip_def)

lemma log_refill: "log (reset_tipracks p (prompt p e)) = log e @ [Prompt (tip_racks p), ResetTipracks]"
  by (simp add: reset_tipracks_def prompt_def)

lemma prompts_pick_up_tip_le:
  "prompts (log (snd (snd (pick_up_tip number location p e)))) \<le> prompts (log e) + 1"
proof (cases location)
  case (Some loc)
  then show ?thesis
    by (simp add: pick_up_tip_def log_base_pick_up_tip prompts_append prompts_def split: prod.splits)
next
  case None
  show ?thesis
  proof (cases "valid_count p number")
    case False
    then show ?thesis
      using None by (cases number) (auto simp: pick_up_tip_def)
  next
    case True
    then obtain n where n: "number = IntArg n" "0 < n" "n \<le> channels p"
      by (cases number) auto
    show ?thesis
      unfolding None n(1) pick_up_tip_checked [OF n(2,3)]
      by (auto simp: log_base_pick_up_tip log_refill prompts_append prompts_def
               split: sum.splits)
  qed
qed

text \<open>
  C3. When the search of a valid request finds no run in any configured rack
  (\<^verbatim>\<open>next_tip\<close> raises \<^verbatim>\<open>OutOfTipsError\<close>), \<^verbatim>\<open>pick_up_tip\<close> prompts the operator once,
  resets every rack of the pipette to full, and runs the same search once more: a well
  it finds is picked up, and an error it raises (\<^verbatim>\<open>OutOfTipsError\<close> when there is still
  no run) leaves the call uncaught, with no second prompt. The log of the call holds
  exactly one more prompt; and no call to \<^verbatim>\<open>pick_up_tip\<close> at all adds more than one.
  The witness has an exhausted rack, served after one prompt, and a pipette with no rack,
  for which the retry fails with \<^verbatim>\<open>OutOfTipsError\<close> after one prompt.
\<close>

theorem refill_once_then_retry:
  assumes "0 < n" "n \<le> channels p" "next_tip p e n = Inl OutOfTipsError"
  shows "(let e1 = reset_tipracks p (prompt p e) in
           log e1 = log e @ [Prompt (tip_racks p), ResetTipracks] \<and>
           all_full p e1 \<and>
           pick_up_tip (IntArg n) None p e =
             (case next_tip p e1 n of
                Inl err \<Rightarrow> (Inl err, p, e1)
              | Inr w \<Rightarrow> (Inr (), base_pick_up_tip w p e1)) \<and>
           prompts (log (snd (snd (pick_up_tip (IntArg n) None p e)))) = prompts (log e) + 1) \<and>
         (\<forall>number location p' e'.
            prompts (log (snd (snd (pick_up_tip number location p' e')))) \<le> prompts (log e') + 1)"
proof -
  define e1 where "e1 = reset_tipracks p (prompt p e)"
  have lg: "log e1 = log e @ [Prompt (tip_racks p), ResetTipracks]"
    unfolding e1_def by (rule log_refill)
  have full: "all_full p e1"
    unfolding e1_def by (rule reset_tipracks_all_full)
  have run: "pick_up_tip (IntArg n) None p e =
             (case next_tip p e1 n of
                Inl err \<Rightarrow> (Inl err, p, e1)
              | Inr w \<Rightarrow> (Inr (), base_pick_up_tip w p e1))"
    unfolding e1_def pick_up_tip_checked [OF assms(1,2)] assms(3) by simp
  have count: "prompts (log (snd (snd (pick_up_tip (IntArg n) None p e)))) = prompts (log e) + 1"
    unfolding run
    by (cases "next_tip p e1 n")
       (simp_all add: lg log_base_pick_up_tip prompts_append, simp_all add: prompts_def)
  show ?thesis
    using lg full run count prompts_pick_up_tip_le
    unfolding Let_def e1_def [symmetric] by blast
qed

theorem refill_once_then_retry_witness:
  "0 < (3::int) \<and> 3 \<le> channels multi8 \<and>
   next_tip multi8 (env_of empty_column) 3 = Inl OutOfTipsError \<and>
   fst (pick_up_tip (IntArg 3) None multi8 (env_of empty_column)) = Inr () \<and>
   log (snd (snd (pick_up_tip (IntArg 3) None multi8 (env_of empty_column)))) =
     [Prompt [0], ResetTipracks, PickUpTip \<lparr>ref_rack = 0, ref_col = 0, ref_row = 5\<rparr>] \<and>
   prompts (log (snd (snd (pick_up_tip (IntArg 3) None multi8 (env_of empty_column))))) = 1 \<and>
   next_tip (multi8\<lparr>tip_racks := []\<rparr>) (env_of full_column) 3 = Inl OutOfTipsError \<and>
   fst (pick_up_tip (IntArg 3) None (multi8\<lparr>tip_racks := []\<rparr>) (env_of full_column))
     = Inl OutOfTipsError \<and>
   log (snd (snd (pick_up_tip (IntArg 3) None (multi8\<lparr>tip_racks := []\<rparr>) (env_of full_column))))
     = [Prompt [], ResetTipracks]"
proof -
  have c: "0 < (3::int)" "3 \<le> channels multi8"
    by (simp_all add: multi8_def)
  have out: "next_tip multi8 (env_of empty_column) 3 = Inl OutOfTipsError"
    by code_simp
  have retry: "next_tip multi8 (reset_tipracks multi8 (prompt multi8 (env_of empty_column))) 3
                 = Inr \<lparr>ref_rack = 0, ref_col = 0, ref_row = 5\<rparr>"
    by code_simp
  have lg: "log (env_of empty_column) = []" "tip_racks multi8 = [0]"
    by (simp_all add: env_of_def multi8_def)
  have served: "fst (pick_up_tip (IntArg 3) None multi8 (env_of empty_column)) = Inr () \<and>
      log (snd (snd (pick_up_tip (IntArg 3) None multi8 (env_of empty_column)))) =
        [Prompt [0], ResetTipracks, PickUpTip \<lparr>ref_rack = 0, ref_col = 0, ref_row = 5\<rparr>] \<and>
      prompts (log (snd (snd (pick_up_tip (IntArg 3) None multi8 (env_of empty_column))))) = 1"
    using lg retry refill_once_then_retry [OF c out]
    by (simp add: Let_def log_base_pick_up_tip log_refill prompts_def)
  let ?q = "multi8\<lparr>tip_racks := []\<rparr>"
  have c': "3 \<le> channels ?q"
    by (simp add: multi8_def)
  have out': "next_tip ?q e 3 = Inl OutOfTipsError" for e
    by (simp add: next_tip_def)
  have lg': "log (env_of full_column) = []"
    by (simp add: env_of_def)
  have fatal: "fst (pick_up_tip (IntArg 3) None ?q (env_of full_column)) = Inl OutOfTipsError \<and>
      log (snd (snd (pick_up_tip (IntArg 3) None ?q (env_of full_column)))) = [Prompt [], ResetTipracks]"
    using lg' out' refill_once_then_retry [OF c(1) c' out']
    by (simp add: Let_def log_refill)
  show ?thesis
    using c out served out' fatal by blast
qed

section \<open>Properties of the headroom\<close>

text \<open>
  What \<^verbatim>\<open>get_available_volume\<close> computes. With a tip held it is \<^verbatim>\<open>max_volume\<close>, the
  rated maximum of the pipette, less the held volume: the capacity of the tip held plays
  no part. With no tip held it is the smaller of the capacity of the well \<^verbatim>\<open>next_tip(1)\<close>
  returns and \<^verbatim>\<open>max_volume\<close>; that well is the one the next pick-up of one tip takes.
  The function is a query: it returns a volume and no state, so it claims nothing.
\<close>

lemma get_available_volume_cases:
  "(has_tip p \<longrightarrow> get_available_volume p e = Inr (max_volume p - current_volume p)) \<and>
   (\<not> has_tip p \<longrightarrow>
      (\<forall>w. next_tip p e 1 = Inr w \<longrightarrow>
         get_available_volume p e = Inr (min (well_max_volume (well_at e w)) (max_volume p)) \<and>
         (1 \<le> channels p \<longrightarrow>
            pick_up_tip (IntArg 1) None p e = (Inr (), base_pick_up_tip w p e))))"
  by (simp add: get_available_volume_def pick_up_tip_checked)

text \<open>
  C6. The claim has the headroom with a tip held be the capacity of the tip less the held
  volume, as the docstring of \<^verbatim>\<open>get_available_volume\<close> says (the available space in the
  tip) and as the branch for no tip held does, which caps the headroom by the capacity of
  the next tip. The branch for a tip held does not: on a 300 uL single-channel pipette
  with a rack of 200 uL tips the headroom is 200 before the pick-up; the pick-up leaves
  the pipette holding an empty tip taken from a well of capacity 200; the headroom is
  then 300, not 200; and a transfer of 250 passes the capacity check and returns.
\<close>

theorem headroom_ignores_tip_capacity:
  "get_available_volume single1 (env_of filter_tip_column) = Inr 200 \<and>
   fst (pick_up_tip (IntArg 1) None single1 (env_of filter_tip_column)) = Inr () \<and>
   has_tip (fst (snd (pick_up_tip (IntArg 1) None single1 (env_of filter_tip_column)))) \<and>
   current_volume (fst (snd (pick_up_tip (IntArg 1) None single1 (env_of filter_tip_column))))
     = 0 \<and>
   map_option (well_max_volume \<circ> well_at (env_of filter_tip_column))
     (last_picked (log (snd (snd (pick_up_tip (IntArg 1) None single1
                                    (env_of filter_tip_column)))))) = Some 200 \<and>
   get_available_volume
     (fst (snd (pick_up_tip (IntArg 1) None single1 (env_of filter_tip_column))))
     (snd (snd (pick_up_tip (IntArg 1) None single1 (env_of filter_tip_column)))) = Inr 300 \<and>
   fst (transfer 250 (Reservoir ''A1'') (PlateWell 2 CHR ''B'' 2) False False False
          (fst (snd (pick_up_tip (IntArg 1) None single1 (env_of filter_tip_column))))
          (snd (snd (pick_up_tip (IntArg 1) None single1 (env_of filter_tip_column))))) = Inr 0"
  by code_simp

lemma spec_column_search_exhausted:
  assumes "length column = 8" "list_all (\<lambda>w. \<not> well_has_tip w) column"
  shows "spec_column_search column (Suc 0) = None"
proof -
  have "\<not> well_has_tip (column ! r)" if "r < 8" for r
    using assms that by (simp add: list_all_length)
  then show ?thesis
    by (auto simp: spec_column_search_def find_None_iff run_available_def)
qed

lemma spec_rack_search_exhausted:
  assumes "list_all (\<lambda>column. length column = 8) columns"
          "list_all (list_all (\<lambda>w. \<not> well_has_tip w)) columns"
  shows "spec_rack_search columns (Suc 0) c = None"
  using assms
  by (induction columns arbitrary: c) (simp_all add: spec_column_search_exhausted)

lemma spec_next_tip_exhausted:
  assumes "list_all (\<lambda>k. list_all (\<lambda>column. length column = 8) (d k)) ks"
          "list_all (\<lambda>k. list_all (list_all (\<lambda>w. \<not> well_has_tip w)) (d k)) ks"
  shows "spec_next_tip d ks (Suc 0) = Inl OutOfTipsError"
  using assms
  by (induction ks) (simp_all add: spec_rack_search_exhausted)

lemma next_tip_exhausted:
  assumes "eight_rows p e" "exhausted p e"
  shows "next_tip p e 1 = Inl OutOfTipsError"
proof -
  have "scan_racks (deck e) (tip_racks p) 1 = spec_next_tip (deck e) (tip_racks p) (nat 1)"
    using assms(1) by (intro scan_racks_spec) (simp_all add: eight_rows_def)
  also have "\<dots> = Inl OutOfTipsError"
    using assms by (simp add: spec_next_tip_exhausted eight_rows_def exhausted_def)
  finally show ?thesis
    by (simp add: next_tip_def)
qed

lemma clear_residual_keeps:
  "has_tip (fst (clear_residual source p e)) = has_tip p"
  "tip_racks (fst (clear_residual source p e)) = tip_racks p"
  "max_volume (fst (clear_residual source p e)) = max_volume p"
  "current_volume (fst (clear_residual source p e)) = 0"
  "deck (snd (clear_residual source p e)) = deck e"
  "log (snd (clear_residual source p e)) =
     log e @ (if current_volume p \<noteq> 0 then [Dispense (current_volume p) source] else [])"
  by (simp_all add: clear_residual_def dispense_def get_current_volume_def)

lemma get_available_volume_cong:
  "has_tip p' = has_tip p \<Longrightarrow> \<not> has_tip p \<Longrightarrow> tip_racks p' = tip_racks p \<Longrightarrow>
   max_volume p' = max_volume p \<Longrightarrow> deck e' = deck e \<Longrightarrow>
   get_available_volume p' e' = get_available_volume p e"
  by (simp add: get_available_volume_def next_tip_def well_at_def split: sum.splits)

text \<open>
  C10. With no tip held and no tip left in any configured rack (of 8-row columns),
  \<^verbatim>\<open>get_available_volume\<close> raises \<^verbatim>\<open>OutOfTipsError\<close>, and so does a transfer attempted in
  that state, whatever its arguments: it stops after the defensive clear, with the
  racks as they were and no prompt issued, not with the \<^verbatim>\<open>ValueError\<close> of the capacity check.
\<close>

theorem headroom_out_of_tips:
  assumes "\<not> has_tip p" "eight_rows p e" "exhausted p e"
  shows "get_available_volume p e = Inl OutOfTipsError \<and>
         transfer volume source destination touch_tip blow_out reverse p e
           = (Inl OutOfTipsError, clear_residual source p e) \<and>
         deck (snd (clear_residual source p e)) = deck e \<and>
         prompts (log (snd (clear_residual source p e))) = prompts (log e)"
proof -
  have h: "get_available_volume p e = Inl OutOfTipsError"
    using assms by (simp add: get_available_volume_def next_tip_exhausted)
  obtain p1 e1 where c: "clear_residual source p e = (p1, e1)"
    by (cases "clear_residual source p e")
  have "get_available_volume p1 e1 = get_available_volume p e"
    using clear_residual_keeps [of source p e] assms(1) c
    by (intro get_available_volume_cong) simp_all
  with h have h1: "get_available_volume p1 e1 = Inl OutOfTipsError"
    by simp
  have t: "transfer volume source destination touch_tip blow_out reverse p e
             = (Inl OutOfTipsError, p1, e1)"
    by (simp add: transfer_def c guarded_aspirate_volume_def h1)
  have "prompts (log (snd (clear_residual source p e))) = prompts (log e)"
    by (simp add: clear_residual_keeps prompts_append) (simp add: prompts_def)
  then show ?thesis
    using h t c clear_residual_keeps(5) [of source p e] by simp
qed

theorem headroom_out_of_tips_witness:
  "\<not> has_tip multi8 \<and> eight_rows multi8 (env_of empty_column) \<and> exhausted multi8 (env_of empty_column) \<and>
   get_available_volume multi8 (env_of empty_column) = Inl OutOfTipsError \<and>
   transfer 5 (Reservoir ''A3'') (PlateWell 2 CHR ''B'' 2) True False True multi8 (env_of empty_column)
     = (Inl OutOfTipsError, multi8, env_of empty_column)"
proof -
  have h: "\<not> has_tip multi8" "eight_rows multi8 (env_of empty_column)" "exhausted multi8 (env_of empty_column)"
    by code_simp+
  have "clear_residual (Reservoir ''A3'') multi8 (env_of empty_column) = (multi8, env_of empty_column)"
    by (simp add: clear_residual_def get_current_volume_def multi8_def)
  then show ?thesis
    using h headroom_out_of_tips [OF h, of 5 "Reservoir ''A3''" "PlateWell 2 CHR ''B'' 2" True False True]
    by simp
qed

section \<open>Properties of the transfer\<close>

text \<open>The transfer once the residual is cleared and the headroom is known.\<close>

lemma transfer_with_headroom:
  assumes "clear_residual source p e = (p1, e1)" "get_available_volume p1 e1 = Inr h"
  shows "transfer volume source destination touch_tip blow_out reverse p e =
           (if chosen_volume volume reverse h > h then (Inl ValueError, p1, e1)
            else
              (Inr (if blow_out then 0
                    else current_volume p1 + chosen_volume volume reverse h - volume),
               p1\<lparr>current_volume :=
                    (if blow_out then 0
                     else current_volume p1 + chosen_volume volume reverse h - volume)\<rparr>,
               e1\<lparr>log := log e1 @
                    [Aspirate (chosen_volume volume reverse h) source,
                     Dispense volume destination] @
                    (if blow_out then [BlowOut destination] else []) @
                    (if touch_tip then [TouchTip destination] else [])\<rparr>))"
  using assms
  by (simp add: transfer_def guarded_aspirate_volume_def chosen_volume_def aspirate_def
        dispense_def blow_out_at_def touch_tip_at_def get_current_volume_def)

lemma transfer_success_headroom:
  assumes "transfer volume source destination touch_tip blow_out reverse p e = (Inr r, p', e')"
  shows "\<exists>h. get_available_volume (fst (clear_residual source p e))
                (snd (clear_residual source p e)) = Inr h"
  using assms
  by (cases "get_available_volume (fst (clear_residual source p e))
               (snd (clear_residual source p e))")
     (auto simp: transfer_def guarded_aspirate_volume_def split: prod.splits sum.splits if_splits)

text \<open>
  C2. Let \<open>h\<close> be the headroom once the residual is cleared. The aspiration volume of a
  transfer of \<open>v\<close> is \<open>v * 1.1\<close> when \<^verbatim>\<open>reverse\<close> is set and \<open>v * 1.1 \<le> h\<close>, and \<open>v\<close>
  otherwise; the transfer raises \<^verbatim>\<open>ValueError\<close> (the InsufficientCapacity of the
  specification) exactly when that volume is above \<open>h\<close>. The check comes before any
  aspirate: a transfer that fails it leaves the pipette and the log as they were after
  the clear (the log of the call holds at most the dispense of the residual), and one
  that passes it aspirates that volume from the source next.
\<close>

theorem guarded_aspiration:
  assumes "clear_residual source p e = (p1, e1)" "get_available_volume p1 e1 = Inr h"
  shows "guarded_aspirate_volume volume reverse p1 e1 = Inr (chosen_volume volume reverse h) \<and>
         (fst (transfer volume source destination touch_tip blow_out reverse p e) = Inl ValueError)
           = (chosen_volume volume reverse h > h) \<and>
         (chosen_volume volume reverse h > h \<longrightarrow>
            transfer volume source destination touch_tip blow_out reverse p e
              = (Inl ValueError, p1, e1)) \<and>
         log e1 = log e @
           (if current_volume p \<noteq> 0 then [Dispense (current_volume p) source] else []) \<and>
         (\<not> chosen_volume volume reverse h > h \<longrightarrow>
            take (Suc (length (log e1)))
              (log (snd (snd (transfer volume source destination touch_tip blow_out reverse p e))))
              = log e1 @ [Aspirate (chosen_volume volume reverse h) source])"
proof -
  have g: "guarded_aspirate_volume volume reverse p1 e1 = Inr (chosen_volume volume reverse h)"
    using assms(2) by (simp add: guarded_aspirate_volume_def chosen_volume_def)
  have l: "log e1 = log e @
           (if current_volume p \<noteq> 0 then [Dispense (current_volume p) source] else [])"
    using clear_residual_keeps(6) [of source p e] assms(1) by simp
  show ?thesis
    using g l by (simp add: transfer_with_headroom [OF assms])
qed

theorem guarded_aspiration_witness:
  "clear_residual (Reservoir ''A1'') single1_with_tip (env_of full_column)
     = (single1_with_tip, env_of full_column) \<and>
   get_available_volume single1_with_tip (env_of full_column) = Inr 300 \<and>
   chosen_volume 100 True 300 = 110 \<and>
   chosen_volume 280 True 300 = 280 \<and>
   chosen_volume 100 False 300 = 100 \<and>
   fst (transfer 100 (Reservoir ''A1'') (PlateWell 2 CHR ''B'' 2) True False True
          single1_with_tip (env_of full_column)) \<noteq> Inl ValueError \<and>
   transfer 301 (Reservoir ''A1'') (PlateWell 2 CHR ''B'' 2) True False True
          single1_with_tip (env_of full_column) = (Inl ValueError, single1_with_tip, env_of full_column)"
proof -
  have c: "clear_residual (Reservoir ''A1'') single1_with_tip (env_of full_column)
             = (single1_with_tip, env_of full_column)"
    by (simp add: clear_residual_def get_current_volume_def single1_with_tip_def single1_def)
  have h: "get_available_volume single1_with_tip (env_of full_column) = Inr 300"
    by (simp add: get_available_volume_def single1_with_tip_def single1_def)
  have v: "chosen_volume 100 True 300 = 110" "chosen_volume 280 True 300 = 280"
          "chosen_volume 100 False 300 = 100" "chosen_volume 301 True 300 = 301"
    by (simp_all add: chosen_volume_def)
  show ?thesis
    using c h v
      guarded_aspiration [OF c h, of 100 True "PlateWell 2 CHR ''B'' 2" True False]
      guarded_aspiration [OF c h, of 301 True "PlateWell 2 CHR ''B'' 2" True False]
    by simp
qed

text \<open>
  C5. The driver calls of a transfer that returns are, in this order: the dispense of the
  whole residual volume into the source when there is one; the aspirate of the guarded
  volume from the source; the dispense of the requested volume (not of the aspirated one)
  into the destination; a blow-out at the destination when \<^verbatim>\<open>blow_out\<close> is set; a touch-tip
  at the destination when \<^verbatim>\<open>touch_tip\<close> is set. It returns the volume the pipette then
  holds: the margin \<open>v * 1.1 - v\<close> (a tenth of the request) when the margin was applied and
  no blow-out emptied the tip, and 0 otherwise.
\<close>

theorem transfer_steps:
  assumes "transfer volume source destination touch_tip blow_out reverse p e = (Inr r, p', e')"
  shows "\<exists>h. get_available_volume (fst (clear_residual source p e))
                (snd (clear_residual source p e)) = Inr h \<and>
              log e' = log e @
                (if current_volume p \<noteq> 0 then [Dispense (current_volume p) source] else []) @
                [Aspirate (chosen_volume volume reverse h) source, Dispense volume destination] @
                (if blow_out then [BlowOut destination] else []) @
                (if touch_tip then [TouchTip destination] else []) \<and>
              r = current_volume p' \<and>
              r = (if reverse \<and> volume * 1.1 \<le> h \<and> \<not> blow_out
                   then volume * 1.1 - volume else 0)"
proof -
  obtain p1 e1 where c: "clear_residual source p e = (p1, e1)"
    by (cases "clear_residual source p e")
  obtain h where h: "get_available_volume p1 e1 = Inr h"
    using transfer_success_headroom [OF assms] c by auto
  have z: "current_volume p1 = 0"
    using clear_residual_keeps(4) [of source p e] c by simp
  have l: "log e1 = log e @
           (if current_volume p \<noteq> 0 then [Dispense (current_volume p) source] else [])"
    using clear_residual_keeps(6) [of source p e] c by simp
  note t = transfer_with_headroom [OF c h, of volume destination touch_tip blow_out reverse]
  have ok: "\<not> chosen_volume volume reverse h > h"
    using assms t by (auto split: if_splits)
  have "r = current_volume p'"
    using assms t ok by auto
  moreover have "log e' = log e1 @
                [Aspirate (chosen_volume volume reverse h) source, Dispense volume destination] @
                (if blow_out then [BlowOut destination] else []) @
                (if touch_tip then [TouchTip destination] else [])"
    using assms t ok by auto
  moreover have "r = (if reverse \<and> volume * 1.1 \<le> h \<and> \<not> blow_out
                   then volume * 1.1 - volume else 0)"
    using assms t ok z by (auto simp: chosen_volume_def)
  ultimately show ?thesis
    using h c l by auto
qed

theorem transfer_steps_witness:
  "fst (transfer 100 (Reservoir ''A1'') (PlateWell 2 CHR ''B'' 2) True False True
          (single1_with_tip\<lparr>current_volume := 7\<rparr>) (env_of full_column)) = Inr 10 \<and>
   log (snd (snd (transfer 100 (Reservoir ''A1'') (PlateWell 2 CHR ''B'' 2) True False True
          (single1_with_tip\<lparr>current_volume := 7\<rparr>) (env_of full_column)))) =
     [Dispense 7 (Reservoir ''A1''), Aspirate 110 (Reservoir ''A1''),
      Dispense 100 (PlateWell 2 CHR ''B'' 2), TouchTip (PlateWell 2 CHR ''B'' 2)]"
proof -
  let ?p = "single1_with_tip\<lparr>current_volume := 7\<rparr>"
  let ?t = "transfer 100 (Reservoir ''A1'') (PlateWell 2 CHR ''B'' 2) True False True
              ?p (env_of full_column)"
  have h: "get_available_volume (fst (clear_residual (Reservoir ''A1'') ?p (env_of full_column)))
             (snd (clear_residual (Reservoir ''A1'') ?p (env_of full_column))) = Inr 300"
    by (simp add: clear_residual_def get_current_volume_def dispense_def get_available_volume_def
          single1_with_tip_def single1_def)
  have "fst ?t = Inr 10"
    by (simp add: transfer_def clear_residual_def get_current_volume_def dispense_def
          get_available_volume_def guarded_aspirate_volume_def aspirate_def touch_tip_at_def
          single1_with_tip_def single1_def)
  then obtain p' e' where t: "?t = (Inr 10, p', e')"
    by (cases ?t) auto
  have "log (env_of full_column) = []" "current_volume ?p = 7"
    by (simp_all add: env_of_def)
  then show ?thesis
    using transfer_steps [OF t] h t by (auto simp: chosen_volume_def)
qed

section \<open>Properties of the induction scheduling\<close>

lemma str_index_range: "str_index xs c = Inr i \<Longrightarrow> i < length xs \<and> xs ! i = c"
  by (induction xs arbitrary: i) (auto split: if_splits sum.splits)

lemma str_index_distinct:
  "distinct xs \<Longrightarrow> i < length xs \<Longrightarrow> str_index xs (xs ! i) = Inr i"
proof (induction xs arbitrary: i)
  case Nil
  then show ?case by simp
next
  case (Cons x xs)
  then show ?case
    by (cases i) (auto simp: nth_Cons')
qed

lemma str_index_letters:
  "(str_index letters c = Inr i) = (i < 8 \<and> letters ! i = c)"
proof -
  have "distinct letters" "length letters = 8"
    by (simp_all add: letters_def)
  then show ?thesis
    using str_index_range [of letters c i] str_index_distinct [of letters i] by auto
qed

lemma mark_locations_vector:
  assumes "mark_locations occ0 locations = Inr occ" "occ column = Some vector"
  shows "\<exists>v0. occ0 column = Some v0 \<and> length vector = length v0 \<and>
           (\<forall>i<length v0. vector ! i =
              (v0 ! i \<or> (\<exists>l. (l, column) \<in> set locations \<and> str_index letters l = Inr i)))"
  using assms
proof (induction locations arbitrary: occ0)
  case Nil
  then show ?case by simp
next
  case (Cons loc rest)
  obtain l c where loc: "loc = (l, c)"
    by (cases loc)
  from Cons.prems(1) obtain v i where
    v: "occ0 c = Some v" and i: "str_index letters l = Inr i" and
    run: "mark_locations (occ0(c \<mapsto> v[i := True])) rest = Inr occ"
    by (auto simp: loc split: option.splits sum.splits)
  from Cons.IH [OF run Cons.prems(2)] obtain v1 where
    v1: "(occ0(c \<mapsto> v[i := True])) column = Some v1" "length vector = length v1"
        "\<forall>j<length v1. vector ! j =
           (v1 ! j \<or> (\<exists>l. (l, column) \<in> set rest \<and> str_index letters l = Inr j))"
    by blast
  show ?case
  proof (cases "c = column")
    case False
    with v1 loc show ?thesis by auto
  next
    case True
    with v1 v have eq: "v1 = v[i := True]" by simp
    have "vector ! j =
            (v ! j \<or> (\<exists>l. (l, column) \<in> set (loc # rest) \<and> str_index letters l = Inr j))"
      if j: "j < length v" for j
    proof -
      have upd: "v[i := True] ! j = (v ! j \<or> j = i)"
        using j by (cases "i = j") simp_all
      have here: "(str_index letters l = Inr j) = (j = i)"
        using i by auto
      have "(\<exists>l'. (l', column) \<in> set (loc # rest) \<and> str_index letters l' = Inr j) =
              (j = i \<or> (\<exists>l'. (l', column) \<in> set rest \<and> str_index letters l' = Inr j))"
        using here loc True by auto
      moreover have "vector ! j =
              (v[i := True] ! j \<or> (\<exists>l. (l, column) \<in> set rest \<and> str_index letters l = Inr j))"
        using v1(3) j eq by simp
      ultimately show ?thesis
        using upd by blast
    qed
    then show ?thesis
      using v v1(2) eq True by simp
  qed
qed

lemma first_true_None: "(first_true vector = None) = (\<forall>x \<in> set vector. \<not> x)"
  by (induction vector) auto

lemma first_true_Some:
  "first_true vector = Some i \<Longrightarrow> i < length vector \<and> vector ! i \<and> (\<forall>j<i. \<not> vector ! j)"
proof (induction vector arbitrary: i)
  case Nil
  then show ?case by simp
next
  case (Cons x xs)
  then show ?case
    by (cases x) (auto simp: nth_Cons' split: if_splits)
qed

lemma sum_bools_count: "sum_bools vector = length (filter (\<lambda>x. x) vector)"
  by (induction vector) (simp_all add: sum_bools_def)

lemma induce_column_sequence:
  assumes "0 < num_tips" "row < 8"
  shows "induce_column iptg_volume iptg_source column (row, num_tips) p e =
           (case pick_up_tip (IntArg (int num_tips)) None p e of
              (Inl err, s) \<Rightarrow> (Inl err, s)
            | (Inr u, p1, e1) \<Rightarrow>
               (case transfer iptg_volume iptg_source (PlateWell 2 (letters ! row) column)
                       True False True p1 e1 of
                  (Inl err, s) \<Rightarrow> (Inl err, s)
                | (Inr r, p2, e2) \<Rightarrow> (Inr (), drop_tip p2 e2)))"
proof -
  have "py_index letters (int row) = Inr row"
    using assms(2) by (simp add: py_index_def letters_def)
  then show ?thesis
    using assms(1)
    by (simp add: induce_column_def split: prod.splits sum.splits)
qed

text \<open>
  One round of the scheduling loop, for the vector the marking loop leaves for a column:
  entry \<open>i\<close> is set exactly for the occupied rows \<open>i\<close> below 8. With no entry set the plan
  is \<open>(0, 0)\<close> and the round does nothing. Otherwise the plan is the index of the first
  set entry and the number of set entries, next to each other or not, and the round is
  the round of the specification for them.
\<close>

lemma column_round:
  assumes "mark_locations empty_occupancy locations = Inr occ" "occ column = Some vector"
  shows "1 \<le> column \<and> column \<le> 12 \<and> length vector = 12 \<and>
         (\<forall>i<12. vector ! i = (i < 8 \<and> occupied locations column i)) \<and>
         (if \<forall>x \<in> set vector. \<not> x
          then column_plan vector = (0, 0) \<and>
               induce_column iptg_volume iptg_source column (column_plan vector) p e = (Inr (), p, e)
          else (\<exists>start_row tip_count.
                  column_plan vector = (start_row, tip_count) \<and>
                  start_row < 8 \<and> vector ! start_row \<and> (\<forall>j<start_row. \<not> vector ! j) \<and>
                  tip_count = length (filter (\<lambda>x. x) vector) \<and>
                  induce_column iptg_volume iptg_source column (column_plan vector) p e =
                    spec_round iptg_volume iptg_source column start_row tip_count p e))"
proof -
  from mark_locations_vector [OF assms] obtain v0 where
    v0: "empty_occupancy column = Some v0" "length vector = length v0"
        "\<forall>i<length v0. vector ! i =
           (v0 ! i \<or> (\<exists>l. (l, column) \<in> set locations \<and> str_index letters l = Inr i))"
    by blast
  from v0(1) have col: "1 \<le> column" "column \<le> 12" and v0_eq: "v0 = replicate 12 False"
    by (auto simp: empty_occupancy_def split: if_splits)
  have len: "length vector = 12"
    using v0(2) v0_eq by simp
  have vec: "vector ! i = (i < 8 \<and> occupied locations column i)" if "i < 12" for i
    using v0(3) that v0_eq by (auto simp: str_index_letters occupied_def)
  show ?thesis
  proof (cases "\<forall>x \<in> set vector. \<not> x")
    case True
    then have plan: "column_plan vector = (0, 0)"
      by (simp add: column_plan_def first_true_None [symmetric])
    then have "induce_column iptg_volume iptg_source column (column_plan vector) p e = (Inr (), p, e)"
      by (simp add: induce_column_def)
    then show ?thesis
      using True plan col len vec by auto
  next
    case False
    then obtain start_row where s: "first_true vector = Some start_row"
      using first_true_None [of vector] by auto
    note f = first_true_Some [OF s]
    have plan: "column_plan vector = (start_row, length (filter (\<lambda>x. x) vector))"
      by (simp add: column_plan_def s sum_bools_count)
    have low: "start_row < 8"
      using f vec [of start_row] len by auto
    have "vector ! start_row \<in> set vector"
      using f by (intro nth_mem) simp
    then have "vector ! start_row \<in> set (filter (\<lambda>x. x) vector)"
      using f by simp
    then have pos: "0 < length (filter (\<lambda>x. x) vector)"
      by (cases "filter (\<lambda>x. x) vector") auto
    have "induce_column iptg_volume iptg_source column (column_plan vector) p e =
            spec_round iptg_volume iptg_source column start_row
              (length (filter (\<lambda>x. x) vector)) p e"
      unfolding plan spec_round_def by (rule induce_column_sequence [OF pos low])
    then show ?thesis
      using False col len vec plan low f by auto
  qed
qed

text \<open>The round of a column in the words of the specification.\<close>

lemma column_round_spec:
  assumes "mark_locations empty_occupancy locations = Inr occ" "occ column = Some vector"
  shows "induce_column iptg_volume iptg_source column (column_plan vector) p e =
           (case find (occupied locations column) [0..<8] of
              None \<Rightarrow> (Inr (), p, e)
            | Some start_row \<Rightarrow>
               spec_round iptg_volume iptg_source column start_row
                 (length (filter (occupied locations column) [0..<8])) p e)"
proof -
  note r = column_round [OF assms, of iptg_volume iptg_source p e]
  from r have len: "length vector = 12"
    and vec: "\<And>i. i < 12 \<Longrightarrow> vector ! i = (i < 8 \<and> occupied locations column i)"
    by simp_all
  show ?thesis
  proof (cases "\<forall>x \<in> set vector. \<not> x")
    case True
    have "\<not> occupied locations column i" if "i < 8" for i
    proof -
      have "vector ! i \<in> set vector"
        using that len by (intro nth_mem) simp
      with True vec [of i] that show ?thesis by auto
    qed
    then have none: "find (occupied locations column) [0..<8] = None"
      by (simp add: find_None_iff)
    have "induce_column iptg_volume iptg_source column (column_plan vector) p e = (Inr (), p, e)"
      using r True by (auto split: if_splits)
    with none show ?thesis by simp
  next
    case False
    with r obtain start_row where
      s: "start_row < 8" "vector ! start_row" "\<forall>j<start_row. \<not> vector ! j" and
      run: "induce_column iptg_volume iptg_source column (column_plan vector) p e =
              spec_round iptg_volume iptg_source column start_row
                (length (filter (\<lambda>x. x) vector)) p e"
      by auto
    have "find (occupied locations column) [0..<8] = Some start_row"
      unfolding find_Some_iff
    proof (intro exI [of _ start_row] conjI allI impI)
      show "start_row < length [0..<8]" using s(1) by simp
      show "occupied locations column ([0..<8] ! start_row)"
        using s(1,2) vec [of start_row] by simp
      show "start_row = [0..<8] ! start_row" using s(1) by simp
      show "\<not> occupied locations column ([0..<8] ! j)" if "j < start_row" for j
        using that s(1,3) vec [of j] by simp
    qed
    moreover have "length (filter (\<lambda>x. x) vector) =
                   length (filter (occupied locations column) [0..<8])"
    proof -
      have "{i. i < length vector \<and> vector ! i} =
            {i. i < length [0..<8] \<and> occupied locations column ([0..<8] ! i)}"
        using vec len by auto
      then show ?thesis
        by (simp only: length_filter_conv_card)
    qed
    ultimately show ?thesis
      using run by simp
  qed
qed

lemma mark_locations_dom:
  "mark_locations occ0 locations = Inr occ \<Longrightarrow> (occ c = None) = (occ0 c = None)"
proof (induction locations arbitrary: occ0)
  case Nil
  then show ?case by simp
next
  case (Cons loc rest)
  obtain l k where loc: "loc = (l, k)" by (cases loc)
  from Cons.prems obtain v i where
    v: "occ0 k = Some v" and
    run: "mark_locations (occ0(k \<mapsto> v[i := True])) rest = Inr occ"
    by (auto simp: loc split: option.splits sum.splits)
  from Cons.IH [OF run] v show ?case
    by (cases "c = k") simp_all
qed

lemma plan_columns_total:
  assumes "\<forall>c \<in> set columns. occ c \<noteq> None"
  shows "plan_columns occ columns = Inr (map (\<lambda>c. (c, column_plan (the (occ c)))) columns)"
  using assms by (induction columns) auto

lemma induce_columns_spec:
  assumes "mark_locations empty_occupancy locations = Inr occ"
          "\<forall>c \<in> set columns. occ c \<noteq> None"
  shows "induce_columns iptg_volume iptg_source
           (map (\<lambda>c. (c, column_plan (the (occ c)))) columns) p e =
         spec_schedule iptg_volume iptg_source locations columns p e"
  using assms(2)
proof (induction columns arbitrary: p e)
  case Nil
  then show ?case by simp
next
  case (Cons c rest)
  then obtain vector where v: "occ c = Some vector"
    by auto
  note round = column_round_spec [OF assms(1) v, of iptg_volume iptg_source p e]
  have rest: "\<forall>c \<in> set rest. occ c \<noteq> None"
    using Cons.prems by simp
  show ?case
    using round v Cons.IH [OF rest]
    by (simp split: option.splits prod.splits sum.splits)
qed

text \<open>
  C7. One pass of the induction is the schedule of the specification: the columns 1 to 12
  of the destination plate in order; a column with no row occupied by the target wells
  is skipped, with no pick-up and no transfer; for any other column \<open>start_row\<close> is the
  index of the first occupied row and \<open>tip_count\<close> the number of occupied rows, next to
  each other or not, and the round is exactly one \<^verbatim>\<open>pick_up_tip\<close> of \<open>tip_count\<close> tips, then
  one transfer to the well of \<open>start_row\<close> in that column, then the drop of the tips. The
  request for the tips carries the count alone: the slots come from the bottom-up tip
  search, and \<open>start_row\<close> anchors the destination of the transfer only. The witness has
  the vector of the specification, with \<open>start_row = 2\<close> and \<open>tip_count = 3\<close>, two rows
  that are not next to each other, an empty column, and the log of a whole pass.
\<close>

theorem induction_schedule:
  assumes "mark_locations empty_occupancy locations = Inr occ"
  shows "induction_pass iptg_volume iptg_source locations p e =
           spec_schedule iptg_volume iptg_source locations [1..<13] p e \<and>
         (\<forall>column vector. occ column = Some vector \<longrightarrow>
            1 \<le> column \<and> column \<le> 12 \<and> length vector = 12 \<and>
            (\<forall>i<12. vector ! i = (i < 8 \<and> occupied locations column i)) \<and>
            (if \<forall>x \<in> set vector. \<not> x
             then column_plan vector = (0, 0) \<and>
                  induce_column iptg_volume iptg_source column (column_plan vector) p e
                    = (Inr (), p, e)
             else (\<exists>start_row tip_count.
                     column_plan vector = (start_row, tip_count) \<and>
                     start_row < 8 \<and> vector ! start_row \<and> (\<forall>j<start_row. \<not> vector ! j) \<and>
                     tip_count = length (filter (\<lambda>x. x) vector) \<and>
                     induce_column iptg_volume iptg_source column (column_plan vector) p e =
                       spec_round iptg_volume iptg_source column start_row tip_count p e)))"
proof -
  have dom: "\<forall>c \<in> set [1..<13]. occ c \<noteq> None"
    using mark_locations_dom [OF assms] by (auto simp: empty_occupancy_def)
  have "induction_pass iptg_volume iptg_source locations p e =
          induce_columns iptg_volume iptg_source
            (map (\<lambda>c. (c, column_plan (the (occ c)))) [1..<13]) p e"
    by (simp only: induction_pass_def assms plan_columns_total [OF dom] sum.case)
  then have pass: "induction_pass iptg_volume iptg_source locations p e =
          spec_schedule iptg_volume iptg_source locations [1..<13] p e"
    by (simp only: induce_columns_spec [OF assms dom])
  show ?thesis
    using pass column_round [OF assms, of _ _ iptg_volume iptg_source p e] by blast
qed

theorem induction_schedule_witness:
  "(case mark_locations empty_occupancy scenario_locations of
      Inl err \<Rightarrow> False
    | Inr occ \<Rightarrow>
        occ 2 = Some [False, False, True, True, True, False, False, False,
                      False, False, False, False] \<and>
        occ 3 = Some [False, True, False, False, False, True, False, False,
                      False, False, False, False] \<and>
        occ 5 = Some (replicate 12 False)) \<and>
   column_plan [False, False, True, True, True, False, False, False,
                False, False, False, False] = (2, 3) \<and>
   column_plan [False, False, True, True, True, False, False, False] = (2, 3) \<and>
   column_plan [False, True, False, False, False, True, False, False,
                False, False, False, False] = (1, 2) \<and>
   induce_column 10 (Reservoir ''A3'') 5 (column_plan (replicate 12 False))
       multi8 (env_of full_column) = (Inr (), multi8, env_of full_column) \<and>
   induction_pass 10 (Reservoir ''A3'') scenario_locations multi8 (env_of full_column) =
     spec_schedule 10 (Reservoir ''A3'') scenario_locations [1..<13] multi8 (env_of full_column) \<and>
   fst (induction_pass 10 (Reservoir ''A3'') scenario_locations multi8 (env_of full_column))
     = Inr () \<and>
   log (snd (snd (induction_pass 10 (Reservoir ''A3'') scenario_locations multi8
                    (env_of full_column)))) =
     [PickUpTip \<lparr>ref_rack = 0, ref_col = 0, ref_row = 5\<rparr>,
      Aspirate 11 (Reservoir ''A3''),
      Dispense 10 (PlateWell 2 CHR ''C'' 2),
      TouchTip (PlateWell 2 CHR ''C'' 2),
      DropTip,
      PickUpTip \<lparr>ref_rack = 0, ref_col = 0, ref_row = 3\<rparr>,
      Aspirate 11 (Reservoir ''A3''),
      Dispense 10 (PlateWell 2 CHR ''B'' 3),
      TouchTip (PlateWell 2 CHR ''B'' 3),
      DropTip]"
proof -
  let ?v2 = "[False, False, True, True, True, False, False, False, False, False, False, False]"
  let ?v3 = "[False, True, False, False, False, True, False, False, False, False, False, False]"
  have marked: "case mark_locations empty_occupancy scenario_locations of
      Inl err \<Rightarrow> False
    | Inr occ \<Rightarrow> occ 2 = Some ?v2 \<and> occ 3 = Some ?v3 \<and> occ 5 = Some (replicate 12 False)"
    by code_simp
  then obtain occ where m: "mark_locations empty_occupancy scenario_locations = Inr occ"
    and occ: "occ 2 = Some ?v2" "occ 3 = Some ?v3" "occ 5 = Some (replicate 12 False)"
    by (cases "mark_locations empty_occupancy scenario_locations") auto
  have plans: "column_plan ?v2 = (2, 3)" "column_plan ?v3 = (1, 2)"
      "column_plan [False, False, True, True, True, False, False, False] = (2, 3)"
    by code_simp+
  note sched = induction_schedule [OF m, of 10 "Reservoir ''A3''" multi8 "env_of full_column"]
  have skip: "induce_column 10 (Reservoir ''A3'') 5 (column_plan (replicate 12 False))
       multi8 (env_of full_column) = (Inr (), multi8, env_of full_column)"
    using sched [THEN conjunct2, rule_format, OF occ(3)] by (auto split: if_splits)
  have pass: "induction_pass 10 (Reservoir ''A3'') scenario_locations multi8 (env_of full_column) =
     spec_schedule 10 (Reservoir ''A3'') scenario_locations [1..<13] multi8 (env_of full_column)"
    using sched by blast
  have run: "fst (induction_pass 10 (Reservoir ''A3'') scenario_locations multi8 (env_of full_column))
     = Inr () \<and>
   log (snd (snd (induction_pass 10 (Reservoir ''A3'') scenario_locations multi8
                    (env_of full_column)))) =
     [PickUpTip \<lparr>ref_rack = 0, ref_col = 0, ref_row = 5\<rparr>,
      Aspirate 11 (Reservoir ''A3''),
      Dispense 10 (PlateWell 2 CHR ''C'' 2),
      TouchTip (PlateWell 2 CHR ''C'' 2),
      DropTip,
      PickUpTip \<lparr>ref_rack = 0, ref_col = 0, ref_row = 3\<rparr>,
      Aspirate 11 (Reservoir ''A3''),
      Dispense 10 (PlateWell 2 CHR ''B'' 3),
      TouchTip (PlateWell 2 CHR ''B'' 3),
      DropTip]"
    by code_simp
  show ?thesis
    using marked plans skip pass run by simp
qed

text \<open>
  C7, as stated, fails where it has the acquire anchored at \<open>start_row\<close>. For the vector of
  the specification \<open>start_row\<close> is 2, and the run of 3 slots from row 2 of the tip rack
  is available; the round takes the tips from row 5.
\<close>

theorem acquire_not_anchored_counterexample:
  "fst (column_plan [False, False, True, True, True, False, False, False,
                     False, False, False, False]) = 2 \<and>
   run_available (full_column ! 0) 2 3 \<and>
   fst (induce_column 10 (Reservoir ''A3'') 2
          (column_plan [False, False, True, True, True, False, False, False,
                        False, False, False, False]) multi8 (env_of full_column)) = Inr () \<and>
   map_option ref_row (last_picked (log (snd (snd
     (induce_column 10 (Reservoir ''A3'') 2
        (column_plan [False, False, True, True, True, False, False, False,
                      False, False, False, False]) multi8 (env_of full_column)))))) = Some 5 \<and>
   (5::nat) \<noteq> 2"
  by code_simp

section \<open>Properties of the tip sets\<close>

text \<open>What the search returns on 8-row racks is a run of available slots of a rack of the pipette.\<close>

lemma spec_column_search_Some:
  "spec_column_search column n = Some r \<Longrightarrow> r + n \<le> 8 \<and> run_available column r n"
  by (auto simp: spec_column_search_def find_Some_iff)

lemma spec_rack_search_Some:
  "spec_rack_search columns n c0 = Some (c, r) \<Longrightarrow>
   c0 \<le> c \<and> c - c0 < length columns \<and> spec_column_search (columns ! (c - c0)) n = Some r"
proof (induction columns arbitrary: c0)
  case Nil
  then show ?case by simp
next
  case (Cons column rest)
  show ?case
  proof (cases "spec_column_search column n")
    case (Some r')
    with Cons.prems show ?thesis by simp
  next
    case None
    with Cons.prems have "spec_rack_search rest n (Suc c0) = Some (c, r)"
      by simp
    from Cons.IH [OF this] show ?thesis
      by (auto simp: Suc_diff_Suc Suc_le_eq)
  qed
qed

lemma spec_next_tip_Inr:
  "spec_next_tip d ks n = Inr w \<Longrightarrow>
   ref_rack w \<in> set ks \<and> ref_col w < length (d (ref_rack w)) \<and>
   spec_column_search (d (ref_rack w) ! ref_col w) n = Some (ref_row w)"
proof (induction ks)
  case Nil
  then show ?case by simp
next
  case (Cons k rest)
  show ?case
  proof (cases "spec_rack_search (d k) n 0")
    case None
    with Cons show ?thesis by simp
  next
    case (Some cr)
    obtain c r where cr: "cr = (c, r)" by (cases cr)
    with Some Cons.prems have w: "w = \<lparr>ref_rack = k, ref_col = c, ref_row = r\<rparr>"
      by simp
    from spec_rack_search_Some [of "d k" n 0 c r] Some cr w show ?thesis
      by simp
  qed
qed

lemma next_tip_run:
  assumes "eight_rows p e" "1 \<le> n" "next_tip p e n = Inr w"
  shows "ref_rack w \<in> set (tip_racks p) \<and> ref_col w < length (deck e (ref_rack w)) \<and>
         length (deck e (ref_rack w) ! ref_col w) = 8 \<and> ref_row w + nat n \<le> 8 \<and>
         (\<forall>i<nat n. well_has_tip (deck e (ref_rack w) ! ref_col w ! (ref_row w + i)))"
proof -
  have "spec_next_tip (deck e) (tip_racks p) (nat n) = Inr w"
    using scan_racks_spec [OF _ assms(2), of "deck e" "tip_racks p"] assms(1,3)
    by (simp add: next_tip_def eight_rows_def)
  note found = spec_next_tip_Inr [OF this]
  note run = spec_column_search_Some [OF found [THEN conjunct2, THEN conjunct2]]
  have s: "ref_rack w \<in> set (tip_racks p)" "ref_col w < length (deck e (ref_rack w))"
          "ref_row w + nat n \<le> 8"
          "run_available (deck e (ref_rack w) ! ref_col w) (ref_row w) (nat n)"
    using found run by simp_all
  have "length (deck e (ref_rack w) ! ref_col w) = 8"
    using assms(1) s(1,2) by (simp add: eight_rows_def list_all_iff)
  then show ?thesis
    using s by (simp add: run_available_def list_all_iff)
qed

lemma tip_set_slot: "s \<in> set (tip_set w n) = (\<exists>i<n. s = w\<lparr>ref_row := ref_row w + i\<rparr>)"
  by (auto simp: tip_set_def)

lemma distinct_tip_set: "distinct (tip_set w n)"
proof -
  have "i = j" if "w\<lparr>ref_row := ref_row w + i\<rparr> = w\<lparr>ref_row := ref_row w + j\<rparr>" for i j
  proof -
    from that have "ref_row (w\<lparr>ref_row := ref_row w + i\<rparr>) = ref_row (w\<lparr>ref_row := ref_row w + j\<rparr>)"
      by (rule arg_cong)
    then show ?thesis by simp
  qed
  then have "inj_on (\<lambda>i. w\<lparr>ref_row := ref_row w + i\<rparr>) (set [0..<n])"
    by (intro inj_onI)
  then show ?thesis
    by (simp add: tip_set_def distinct_map)
qed

text \<open>The effect of the driver's pick-up and of the reset on what the slots report.\<close>

lemma length_mark_used: "length (mark_used column r k) = length column"
  by (simp add: mark_used_def)

lemma nth_mark_used:
  "i < length column \<Longrightarrow>
   mark_used column r k ! i =
     (if r \<le> i \<and> i < r + k then (column ! i)\<lparr>well_has_tip := False\<rparr> else column ! i)"
  by (simp add: mark_used_def nth_enumerate_eq)

lemma length_use_tips: "length (use_tips rack w k) = length rack"
  by (simp add: use_tips_def)

lemma nth_use_tips:
  "c < length rack \<Longrightarrow>
   use_tips rack w k ! c =
     (if c = ref_col w then mark_used (rack ! c) (ref_row w) k else rack ! c)"
  by (simp add: use_tips_def)

lemma map_length_use_tips: "map length (use_tips rack w k) = map length rack"
  by (rule nth_equalityI) (simp_all add: length_use_tips nth_use_tips length_mark_used)

lemma deck_base_pick_up_tip:
  "deck (snd (base_pick_up_tip w p e)) =
     (deck e)(ref_rack w := use_tips (deck e (ref_rack w)) w (nat (channels p)))"
  by (simp add: base_pick_up_tip_def)

lemma eight_rows_shape:
  assumes "\<And>k. map length (deck e' k) = map length (deck e k)"
  shows "eight_rows q e' = eight_rows q e"
proof -
  have "list_all (\<lambda>column. length column = 8) (deck e' k) =
        list_all (\<lambda>column. length column = 8) (deck e k)" for k
  proof -
    have "list_all (\<lambda>column. length column = 8) rack = list_all (\<lambda>n. n = 8) (map length rack)"
      for rack :: labware
      by (simp add: list_all_iff)
    then show ?thesis
      using assms [of k] by simp
  qed
  then show ?thesis
    by (simp add: eight_rows_def)
qed

lemma eight_rows_base_pick_up_tip:
  "eight_rows q (snd (base_pick_up_tip w p e)) = eight_rows q e"
  by (rule eight_rows_shape) (simp add: deck_base_pick_up_tip map_length_use_tips)

lemma eight_rows_refill: "eight_rows q (reset_tipracks p (prompt p e)) = eight_rows q e"
  by (rule eight_rows_shape) (simp add: reset_tipracks_def prompt_def comp_def)

lemma slot_available_refill_other:
  "ref_rack s \<notin> set (tip_racks p) \<Longrightarrow>
   slot_available (reset_tipracks p (prompt p e)) s = slot_available e s"
  by (simp add: slot_available_def well_at_def reset_tipracks_def prompt_def)

lemma slot_available_pick_mono:
  assumes "slot_available (snd (base_pick_up_tip w p e)) s"
  shows "slot_available e s"
proof (cases "ref_rack s = ref_rack w")
  case False
  with assms show ?thesis
    by (simp add: slot_available_def well_at_def deck_base_pick_up_tip)
next
  case True
  define rack where "rack = deck e (ref_rack w)"
  define k where "k = nat (channels p)"
  have d: "deck (snd (base_pick_up_tip w p e)) (ref_rack s) = use_tips rack w k"
    using True by (simp add: deck_base_pick_up_tip rack_def k_def)
  from assms have c: "ref_col s < length rack"
    and r: "ref_row s < length (use_tips rack w k ! ref_col s)"
    and t: "well_has_tip (use_tips rack w k ! ref_col s ! ref_row s)"
    by (simp_all add: slot_available_def well_at_def d length_use_tips)
  have r': "ref_row s < length (rack ! ref_col s)"
    using r c by (simp add: nth_use_tips length_mark_used split: if_splits)
  have "well_has_tip (rack ! ref_col s ! ref_row s)"
    using t c r' by (simp add: nth_use_tips nth_mark_used split: if_splits)
  then show ?thesis
    using c r' True by (simp add: slot_available_def well_at_def rack_def)
qed

lemma slot_unavailable_picked:
  assumes "i < nat (channels p)"
  shows "\<not> slot_available (snd (base_pick_up_tip w p e)) (w\<lparr>ref_row := ref_row w + i\<rparr>)"
proof
  let ?s = "w\<lparr>ref_row := ref_row w + i\<rparr>"
  assume a: "slot_available (snd (base_pick_up_tip w p e)) ?s"
  define rack where "rack = deck e (ref_rack w)"
  define k where "k = nat (channels p)"
  have d: "deck (snd (base_pick_up_tip w p e)) (ref_rack ?s) = use_tips rack w k"
    by (simp add: deck_base_pick_up_tip rack_def k_def)
  from a have c: "ref_col w < length rack"
    and r: "ref_row w + i < length (use_tips rack w k ! ref_col w)"
    and t: "well_has_tip (use_tips rack w k ! ref_col w ! (ref_row w + i))"
    using d by (simp_all add: slot_available_def well_at_def length_use_tips)
  have r': "ref_row w + i < length (rack ! ref_col w)"
    using r c by (simp add: nth_use_tips length_mark_used)
  have "\<not> well_has_tip (use_tips rack w k ! ref_col w ! (ref_row w + i))"
    using c r' assms by (simp add: nth_use_tips nth_mark_used k_def)
  with t show False by simp
qed

text \<open>A served request: the count was valid and one search returned the well picked up.\<close>

lemma pick_up_tip_served:
  assumes "pick_up_tip (IntArg n) None p e = (Inr u, p', e')"
  shows "0 < n \<and> n \<le> channels p \<and>
         (\<exists>w. next_tip p (search_env p e n) n = Inr w \<and>
              (p', e') = base_pick_up_tip w p (search_env p e n))"
proof -
  have valid: "0 < n \<and> n \<le> channels p"
    using assms by (auto simp: pick_up_tip_def split: if_splits)
  note run = pick_up_tip_checked [of n p e]
  show ?thesis
  proof (cases "next_tip p e n")
    case (Inr w)
    then have "search_env p e n = e"
      by (simp add: search_env_def)
    with Inr assms valid run show ?thesis by auto
  next
    case (Inl err)
    with assms valid run have out: "err = OutOfTipsError"
      by (auto split: if_splits)
    with Inl have env: "search_env p e n = reset_tipracks p (prompt p e)"
      by (simp add: search_env_def)
    show ?thesis
      using assms valid run Inl out env
      by (cases "next_tip p (reset_tipracks p (prompt p e)) n") auto
  qed
qed

lemma last_picked_snoc: "last_picked (evs @ [PickUpTip w]) = Some w"
  by (induction evs) simp_all

lemma concat_update:
  "i < length xs \<Longrightarrow>
   concat (xs[i := T]) = concat (take i xs) @ T @ concat (drop (Suc i) xs)"
  by (simp add: upd_conv_take_nth_drop)

lemma concat_split:
  assumes "i < length xs"
  shows "concat xs = concat (take i xs) @ xs ! i @ concat (drop (Suc i) xs)"
proof -
  have "concat xs = concat (take i xs @ xs ! i # drop (Suc i) xs)"
    using assms by (simp add: id_take_nth_drop [symmetric])
  then show ?thesis
    by simp
qed

lemma set_concat_update:
  assumes "i < length xs" "xs ! i = []"
  shows "set (concat (xs[i := T])) = set T \<union> set (concat xs)"
  using concat_update [OF assms(1), of T] concat_split [OF assms(1)] assms(2) by auto

lemma distinct_concat_update:
  assumes "i < length xs" "xs ! i = []" "distinct (concat xs)" "distinct T"
          "set T \<inter> set (concat xs) = {}"
  shows "distinct (concat (xs[i := T]))"
  using concat_update [OF assms(1), of T] concat_split [OF assms(1)] assms(2-5) by auto

lemma distinct_concat_clear:
  assumes "i < length xs" "distinct (concat xs)"
  shows "distinct (concat (xs[i := []]))"
  using concat_update [OF assms(1), of "[]"] concat_split [OF assms(1)] assms(2) by auto

lemma set_concat_clear:
  assumes "i < length xs"
  shows "set (concat (xs[i := []])) \<subseteq> set (concat xs)"
  using concat_update [OF assms(1), of "[]"] concat_split [OF assms(1)] by auto

lemma eight_rows_tip_racks: "tip_racks q = tip_racks p \<Longrightarrow> eight_rows q e = eight_rows p e"
  by (simp add: eight_rows_def)

lemma fleet_eight_rows_update:
  assumes "fleet_eight_rows f" "i < length (pipettes f)" "tip_racks p' = tip_racks (pipettes f ! i)"
          "\<And>q. eight_rows q e' = eight_rows q (fleet_env f)"
  shows "fleet_eight_rows (f\<lparr>pipettes := (pipettes f)[i := p'], fleet_env := e', tipsets := ts\<rparr>)"
proof -
  have old: "eight_rows q (fleet_env f)" if "q \<in> set (pipettes f)" for q
    using assms(1) that by (simp add: fleet_eight_rows_def list_all_iff)
  have "eight_rows q e'" if "q \<in> set ((pipettes f)[i := p'])" for q
  proof -
    from that have "q = p' \<or> q \<in> set (pipettes f)"
      using set_update_subset_insert [of "pipettes f" i p'] by auto
    then show ?thesis
    proof
      assume "q = p'"
      then have "eight_rows q e' = eight_rows (pipettes f ! i) (fleet_env f)"
        using assms(3,4) eight_rows_tip_racks [of p' "pipettes f ! i" e'] by simp
      then show ?thesis
        using old [of "pipettes f ! i"] assms(2) by simp
    next
      assume "q \<in> set (pipettes f)"
      then show ?thesis
        using old assms(4) by simp
    qed
  qed
  then show ?thesis
    by (simp add: fleet_eight_rows_def list_all_iff)
qed

text \<open>What a successful acquire of the fleet is made of.\<close>

lemma exec_acquire:
  assumes "exec_op (Acquire i n) f = Some f'"
  shows "i < length (pipettes f) \<and> i < length (tipsets f) \<and> tipsets f ! i = [] \<and>
         0 < n \<and> n \<le> channels (pipettes f ! i) \<and>
         (\<exists>w. next_tip (pipettes f ! i) (search_env (pipettes f ! i) (fleet_env f) n) n = Inr w \<and>
              f' = f\<lparr>pipettes := (pipettes f)
                        [i := fst (base_pick_up_tip w (pipettes f ! i)
                                     (search_env (pipettes f ! i) (fleet_env f) n))],
                     fleet_env := snd (base_pick_up_tip w (pipettes f ! i)
                                     (search_env (pipettes f ! i) (fleet_env f) n)),
                     tipsets := (tipsets f)[i := tip_set w (nat n)]\<rparr>)"
proof -
  let ?p = "pipettes f ! i" and ?e = "fleet_env f"
  from assms have valid: "i < length (pipettes f)" "i < length (tipsets f)" "tipsets f ! i = []"
    by (auto split: if_splits)
  obtain r p' e' where run: "pick_up_tip (IntArg n) None ?p ?e = (r, p', e')"
    by (cases "pick_up_tip (IntArg n) None ?p ?e")
  with assms valid obtain u where r: "r = Inr u"
    by (cases r) auto
  from pick_up_tip_served [OF run [unfolded r]] obtain w where
    n: "0 < n" "n \<le> channels ?p" and
    w: "next_tip ?p (search_env ?p ?e n) n = Inr w"
       "(p', e') = base_pick_up_tip w ?p (search_env ?p ?e n)"
    by blast
  have "log e' = log (search_env ?p ?e n) @ [PickUpTip w]"
    using w(2) log_base_pick_up_tip [of w ?p "search_env ?p ?e n"] by (metis snd_conv)
  then have "last_picked (log e') = Some w"
    by (simp add: last_picked_snoc)
  then have "f' = f\<lparr>pipettes := (pipettes f)[i := p'], fleet_env := e',
                     tipsets := (tipsets f)[i := tip_set w (nat n)]\<rparr>"
    using assms valid run r by simp
  moreover have "p' = fst (base_pick_up_tip w ?p (search_env ?p ?e n))"
                "e' = snd (base_pick_up_tip w ?p (search_env ?p ?e n))"
    using w(2) by (metis fst_conv, metis snd_conv)
  ultimately show ?thesis
    using valid n w(1) by blast
qed

text \<open>
  An acquire on 8-row racks returns slots that report available to its search and
  unavailable after it.
\<close>

lemma acquire_slots:
  assumes "eight_rows p es" "0 < n" "n \<le> channels p" "next_tip p es n = Inr w"
          "s \<in> set (tip_set w (nat n))"
  shows "slot_available es s \<and> \<not> slot_available (snd (base_pick_up_tip w p es)) s"
proof -
  from assms(5) obtain i where i: "i < nat n" "s = w\<lparr>ref_row := ref_row w + i\<rparr>"
    by (auto simp: tip_set_slot)
  from next_tip_run [OF assms(1) _ assms(4)] assms(2)
  have run: "ref_col w < length (deck es (ref_rack w))"
            "length (deck es (ref_rack w) ! ref_col w) = 8" "ref_row w + nat n \<le> 8"
            "\<forall>i<nat n. well_has_tip (deck es (ref_rack w) ! ref_col w ! (ref_row w + i))"
    by simp_all
  have "slot_available es s"
    using run i by (simp add: slot_available_def well_at_def)
  moreover have "i < nat (channels p)"
    using i(1) assms(3) by linarith
  then have "\<not> slot_available (snd (base_pick_up_tip w p es)) s"
    unfolding i(2) by (rule slot_unavailable_picked)
  ultimately show ?thesis by simp
qed

text \<open>
  In any state of a fleet on 8-row racks, whatever its live TipSets, the TipSet of an
  acquire is made of slots that report available to the search that serves it and
  unavailable after it.
\<close>

lemma acquire_returns_available:
  assumes "fleet_eight_rows g" "exec_op (Acquire i n) g = Some g'" "s \<in> set (tipsets g' ! i)"
  shows "slot_available (search_env (pipettes g ! i) (fleet_env g) n) s \<and>
         \<not> slot_available (fleet_env g') s"
proof -
  let ?p = "pipettes g ! i"
  let ?es = "search_env ?p (fleet_env g) n"
  from exec_acquire [OF assms(2)] obtain w where
    i: "i < length (pipettes g)" "i < length (tipsets g)" and
    n: "0 < n" "n \<le> channels ?p" and
    w: "next_tip ?p ?es n = Inr w" and
    g': "g' = g\<lparr>pipettes := (pipettes g)[i := fst (base_pick_up_tip w ?p ?es)],
                 fleet_env := snd (base_pick_up_tip w ?p ?es),
                 tipsets := (tipsets g)[i := tip_set w (nat n)]\<rparr>"
    by blast
  have "eight_rows ?p (fleet_env g)"
    using assms(1) i(1) by (simp add: fleet_eight_rows_def list_all_length)
  then have p_rows: "eight_rows ?p ?es"
    by (simp add: search_env_def eight_rows_refill)
  have "s \<in> set (tip_set w (nat n))"
    using assms(3) i(2) by (simp add: g')
  from acquire_slots [OF p_rows n w this] show ?thesis
    by (simp add: g')
qed

lemma fleet_ok_iff:
  "fleet_ok f =
     (distinct (concat (tipsets f)) \<and>
      (\<forall>s \<in> set (concat (tipsets f)). \<not> slot_available (fleet_env f) s))"
  unfolding fleet_ok_def list_all_iff ..

lemma acquire_keeps_fleet_ok:
  assumes ok: "fleet_ok f" and rows: "fleet_eight_rows f" and safe: "refill_safe f i n"
      and run: "exec_op (Acquire i n) f = Some f'"
  shows "fleet_ok f' \<and> fleet_eight_rows f'"
proof -
  let ?p = "pipettes f ! i" and ?e = "fleet_env f"
  define es where "es = search_env ?p ?e n"
  from exec_acquire [OF run] obtain w where
    i: "i < length (pipettes f)" "i < length (tipsets f)" "tipsets f ! i = []" and
    n: "0 < n" "n \<le> channels ?p" and
    w: "next_tip ?p es n = Inr w" and
    f': "f' = f\<lparr>pipettes := (pipettes f)[i := fst (base_pick_up_tip w ?p es)],
                 fleet_env := snd (base_pick_up_tip w ?p es),
                 tipsets := (tipsets f)[i := tip_set w (nat n)]\<rparr>"
    unfolding es_def by blast
  let ?e' = "snd (base_pick_up_tip w ?p es)"
  let ?T = "tip_set w (nat n)"
  let ?L = "concat (tipsets f)"
  have rows_es: "eight_rows q es = eight_rows q ?e" for q
    by (simp add: es_def search_env_def eight_rows_refill)
  have "eight_rows ?p ?e"
    using rows i(1) by (simp add: fleet_eight_rows_def list_all_length)
  then have p_rows: "eight_rows ?p es"
    by (simp add: rows_es)
  have live: "\<not> slot_available ?e s" if "s \<in> set ?L" for s
    using ok that unfolding fleet_ok_iff by blast
  have live_es: "\<not> slot_available es s" if s: "s \<in> set ?L" for s
  proof (cases "next_tip ?p ?e n = Inl OutOfTipsError")
    case False
    then show ?thesis
      using live [OF s] by (simp add: es_def search_env_def)
  next
    case True
    with safe s have "ref_rack s \<notin> set (tip_racks ?p)"
      unfolding refill_safe_def list_all_iff by blast
    then show ?thesis
      using live [OF s] True by (simp add: es_def search_env_def slot_available_refill_other)
  qed
  note slots = acquire_slots [OF p_rows n w]
  have disjoint: "set ?T \<inter> set ?L = {}"
    using slots live_es by blast
  have "distinct ?L"
    using ok unfolding fleet_ok_iff by blast
  then have d: "distinct (concat ((tipsets f)[i := ?T]))"
    using disjoint distinct_tip_set [of w "nat n"]
    by (intro distinct_concat_update [OF i(2,3)])
  have "\<not> slot_available ?e' s" if "s \<in> set (concat ((tipsets f)[i := ?T]))" for s
  proof -
    from that have "s \<in> set ?T \<or> s \<in> set ?L"
      unfolding set_concat_update [OF i(2,3)] by blast
    then show ?thesis
      using slots live_es slot_available_pick_mono [of w ?p es s] by blast
  qed
  then have "fleet_ok f'"
    using d unfolding fleet_ok_iff f' by simp
  moreover have "fleet_eight_rows f'"
    unfolding f'
  proof (rule fleet_eight_rows_update [OF rows i(1)])
    show "tip_racks (fst (base_pick_up_tip w ?p es)) = tip_racks ?p"
      by (simp add: base_pick_up_tip_def)
    show "eight_rows q ?e' = eight_rows q ?e" for q
      by (simp add: eight_rows_base_pick_up_tip rows_es)
  qed
  ultimately show ?thesis by simp
qed

lemma release_keeps_fleet_ok:
  assumes ok: "fleet_ok f" and rows: "fleet_eight_rows f"
      and run: "exec_op (Release i) f = Some f'"
  shows "fleet_ok f' \<and> fleet_eight_rows f'"
proof -
  let ?p = "pipettes f ! i" and ?e = "fleet_env f"
  from run have i: "i < length (pipettes f)" "i < length (tipsets f)"
    and f': "f' = f\<lparr>pipettes := (pipettes f)[i := fst (drop_tip ?p ?e)],
                     fleet_env := snd (drop_tip ?p ?e),
                     tipsets := (tipsets f)[i := []]\<rparr>"
    by (auto split: if_splits prod.splits)
  have deck: "deck (snd (drop_tip ?p ?e)) = deck ?e"
    by (simp add: drop_tip_def)
  have avail: "slot_available (snd (drop_tip ?p ?e)) s = slot_available ?e s" for s
    by (simp add: slot_available_def well_at_def deck)
  have "distinct (concat ((tipsets f)[i := []]))"
    using ok distinct_concat_clear [OF i(2)] unfolding fleet_ok_iff by blast
  moreover have "\<not> slot_available (snd (drop_tip ?p ?e)) s"
    if "s \<in> set (concat ((tipsets f)[i := []]))" for s
    using ok that set_concat_clear [OF i(2)] unfolding fleet_ok_iff avail by blast
  ultimately have "fleet_ok f'"
    unfolding fleet_ok_iff f' by simp
  moreover have "fleet_eight_rows f'"
    unfolding f'
  proof (rule fleet_eight_rows_update [OF rows i(1)])
    show "tip_racks (fst (drop_tip ?p ?e)) = tip_racks ?p"
      by (simp add: drop_tip_def)
    show "eight_rows q (snd (drop_tip ?p ?e)) = eight_rows q ?e" for q
      by (rule eight_rows_shape) (simp add: deck)
  qed
  ultimately show ?thesis by simp
qed

lemma run_keeps_fleet_ok:
  assumes "fleet_ok f" "fleet_eight_rows f" "safe_ops ops f" "run_ops ops f = Some f'"
  shows "fleet_ok f' \<and> fleet_eight_rows f'"
  using assms
proof (induction ops arbitrary: f)
  case Nil
  then show ?case by simp
next
  case (Cons x xs)
  from Cons.prems(4) obtain g where g: "exec_op x f = Some g" and rest: "run_ops xs g = Some f'"
    by (auto split: option.splits)
  from Cons.prems(3) g have safe: "safe_ops xs g"
    by simp
  have "fleet_ok g \<and> fleet_eight_rows g"
  proof (cases x)
    case (Acquire i n)
    with Cons.prems(3) have "refill_safe f i n"
      by simp
    with Cons.prems(1,2) g Acquire show ?thesis
      using acquire_keeps_fleet_ok by blast
  next
    case (Release i)
    with Cons.prems(1,2) g show ?thesis
      using release_keeps_fleet_ok by blast
  qed
  then show ?case
    using Cons.IH [OF _ _ safe rest] by blast
qed

text \<open>
  C8. On racks of 8-row columns, take any sequence of valid acquires and releases that is
  refill-safe: no acquire goes through the refill prompt while a live TipSet holds a slot
  in a rack of the acquiring pipette. After it no slot occurs in two live TipSets, and
  every slot of a live TipSet reports unavailable. Moreover every acquire, refill-safe or
  not, returns only slots that report available to the search that serves it, and marks
  each of them unavailable before it returns.

  Without refill-safety the disjointness fails, as the counterexample below shows: the
  reset of the refill makes the slots of another pipette's live TipSet available again.
\<close>

theorem live_tip_sets_disjoint:
  assumes "fleet_ok f" "fleet_eight_rows f" "safe_ops ops f" "run_ops ops f = Some f'"
  shows "distinct (concat (tipsets f')) \<and>
         (\<forall>s \<in> set (concat (tipsets f')). \<not> slot_available (fleet_env f') s) \<and>
         (\<forall>i n g. exec_op (Acquire i n) f' = Some g \<longrightarrow>
            (\<forall>s \<in> set (tipsets g ! i).
               slot_available (search_env (pipettes f' ! i) (fleet_env f') n) s \<and>
               \<not> slot_available (fleet_env g) s))"
proof -
  from run_keeps_fleet_ok [OF assms] have ok: "fleet_ok f'" and rows: "fleet_eight_rows f'"
    by simp_all
  have "slot_available (search_env (pipettes f' ! i) (fleet_env f') n) s \<and>
        \<not> slot_available (fleet_env g) s"
    if g: "exec_op (Acquire i n) f' = Some g" and s: "s \<in> set (tipsets g ! i)" for i n g s
  proof -
    let ?p = "pipettes f' ! i"
    let ?es = "search_env ?p (fleet_env f') n"
    from exec_acquire [OF g] obtain w where
      i: "i < length (pipettes f')" "i < length (tipsets f')" and
      n: "0 < n" "n \<le> channels ?p" and
      w: "next_tip ?p ?es n = Inr w" and
      g': "g = f'\<lparr>pipettes := (pipettes f')[i := fst (base_pick_up_tip w ?p ?es)],
                   fleet_env := snd (base_pick_up_tip w ?p ?es),
                   tipsets := (tipsets f')[i := tip_set w (nat n)]\<rparr>"
      by blast
    have "eight_rows ?p (fleet_env f')"
      using rows i(1) by (simp add: fleet_eight_rows_def list_all_length)
    then have p_rows: "eight_rows ?p ?es"
      by (simp add: search_env_def eight_rows_refill)
    have "s \<in> set (tip_set w (nat n))"
      using s i(2) by (simp add: g')
    from acquire_slots [OF p_rows n w this] show ?thesis
      by (simp add: g')
  qed
  then show ?thesis
    using ok unfolding fleet_ok_iff by blast
qed

theorem live_tip_sets_disjoint_witness:
  "fleet_ok separate_fleet \<and> fleet_eight_rows separate_fleet \<and>
   safe_ops [Acquire 0 1, Acquire 1 1, Release 1, Acquire 1 1] separate_fleet \<and>
   map_option tipsets (run_ops [Acquire 0 1, Acquire 1 1, Release 1, Acquire 1 1] separate_fleet) =
     Some [[\<lparr>ref_rack = 0, ref_col = 0, ref_row = 7\<rparr>], [\<lparr>ref_rack = 1, ref_col = 0, ref_row = 7\<rparr>]] \<and>
   map_option (prompts \<circ> log \<circ> fleet_env)
     (run_ops [Acquire 0 1, Acquire 1 1, Release 1, Acquire 1 1] separate_fleet) = Some 1 \<and>
   distinct (concat (tipsets (the
     (run_ops [Acquire 0 1, Acquire 1 1, Release 1, Acquire 1 1] separate_fleet)))) \<and>
   \<not> slot_available (fleet_env (the
        (run_ops [Acquire 0 1, Acquire 1 1, Release 1, Acquire 1 1] separate_fleet)))
      \<lparr>ref_rack = 1, ref_col = 0, ref_row = 7\<rparr>"
proof -
  let ?ops = "[Acquire 0 1, Acquire 1 1, Release 1, Acquire 1 1]"
  let ?s = "\<lparr>ref_rack = 1, ref_col = 0, ref_row = 7\<rparr>"
  have h: "fleet_ok separate_fleet" "fleet_eight_rows separate_fleet"
          "safe_ops ?ops separate_fleet"
    by code_simp+
  have ts: "map_option tipsets (run_ops ?ops separate_fleet) =
     Some [[\<lparr>ref_rack = 0, ref_col = 0, ref_row = 7\<rparr>], [?s]]"
    by code_simp
  have pr: "map_option (prompts \<circ> log \<circ> fleet_env) (run_ops ?ops separate_fleet) = Some 1"
    by code_simp
  from ts obtain f' where f': "run_ops ?ops separate_fleet = Some f'"
    by (cases "run_ops ?ops separate_fleet") auto
  with ts have live: "?s \<in> set (concat (tipsets f'))"
    by auto
  from live_tip_sets_disjoint [OF h f'] live
  have "distinct (concat (tipsets f'))" "\<not> slot_available (fleet_env f') ?s"
    by blast+
  then show ?thesis
    using h ts pr f' by simp
qed

text \<open>
  C8, as stated, fails. Two single-channel pipettes are configured with the same rack,
  which has one tip left, in row H. The first acquire takes it. The second finds no tip,
  prompts, resets the rack and takes the slot of row H again, while the first pipette
  still holds its TipSet: both live TipSets hold the same slot.
\<close>

theorem shared_rack_refill_counterexample:
  "fleet_ok shared_fleet \<and> fleet_eight_rows shared_fleet \<and>
   map_option tipsets (run_ops [Acquire 0 1, Acquire 1 1] shared_fleet) =
     Some [[\<lparr>ref_rack = 0, ref_col = 0, ref_row = 7\<rparr>], [\<lparr>ref_rack = 0, ref_col = 0, ref_row = 7\<rparr>]] \<and>
   \<not> distinct (concat [[\<lparr>ref_rack = 0, ref_col = 0, ref_row = 7\<rparr>],
                        [\<lparr>ref_rack = 0, ref_col = 0, ref_row = 7\<rparr>]]) \<and>
   map_option (log \<circ> fleet_env) (run_ops [Acquire 0 1, Acquire 1 1] shared_fleet) =
     Some [PickUpTip \<lparr>ref_rack = 0, ref_col = 0, ref_row = 7\<rparr>, Prompt [0], ResetTipracks,
           PickUpTip \<lparr>ref_rack = 0, ref_col = 0, ref_row = 7\<rparr>] \<and>
   \<not> safe_ops [Acquire 0 1, Acquire 1 1] shared_fleet"
  by code_simp

end
